theory Spec2Isabelle
  imports Main "HOL-Library.Word"
begin

unbundle bit_operations_syntax

section \<open>Model of the Mersenne prime search\<close>

text \<open>
  Python integers are unbounded and are modelled as \<^typ>\<open>int\<close>; Python's \<open>%\<close> and
  \<open>>>\<close> round towards minus infinity, as \<open>mod\<close> and \<open>drop_bit\<close> do on \<^typ>\<open>int\<close>.
  An exception raised by the source is a value \<open>Inl e\<close> of a sum type, and a loop that
  may run forever is a partial function whose value \<open>None\<close> means that it does not return.
\<close>

datatype error = ValueError | ZeroDivisionError | LaunchFailure

subsection \<open>MERSENNE.py\<close>

text \<open>The \<open>while i * i <= n\<close> loop of \<open>is_prime\<close>, started at \<open>i = 5\<close>.\<close>

function is_prime_loop :: "int \<Rightarrow> int \<Rightarrow> bool" where
  "is_prime_loop n i =
     (if i * i \<le> n
      then (if n mod i = 0 \<or> n mod (i + 2) = 0 then False else is_prime_loop n (i + 6))
      else True)"
  by pat_completeness auto
termination
proof (relation "measure (\<lambda>(n, i). nat (n + 1 - i))")
  show "wf (measure (\<lambda>(n, i). nat (n + 1 - i)))"
    by simp
next
  fix n i :: int
  assume sq: "i * i \<le> n"
  have "i \<le> i * i"
    by (cases "i \<le> 0") (auto intro: order_trans [OF _ zero_le_square] simp: mult_le_cancel_left1)
  with sq have "i \<le> n"
    by simp
  then show "((n, i + 6), (n, i)) \<in> measure (\<lambda>(n, i). nat (n + 1 - i))"
    by simp
qed

declare is_prime_loop.simps [simp del]

definition is_prime :: "int \<Rightarrow> bool" where
  "is_prime n =
     (if n \<le> 1 then False
      else if n \<le> 3 then True
      else if n mod 2 = 0 \<or> n mod 3 = 0 then False
      else is_prime_loop n 5)"

text \<open>
  The body of \<open>for _ in range(p - 2)\<close> in \<open>lucas_lehmer_test\<close>; both branches of
  \<open>if has_gmpy2\<close> are the same statement \<open>s = (s * s - 2) % M\<close> on Python integers.
\<close>

fun ll_loop :: "nat \<Rightarrow> int \<Rightarrow> int \<Rightarrow> int" where
  "ll_loop 0 M s = s"
| "ll_loop (Suc k) M s = ll_loop k M ((s * s - 2) mod M)"

text \<open>\<open>1 << p\<close> raises \<open>ValueError\<close> on a negative \<open>p\<close>; \<open>range\<close> of a negative number is empty.\<close>

definition lucas_lehmer_test :: "int \<Rightarrow> error + bool" where
  "lucas_lehmer_test p =
     (if p = 2 then Inr True
      else if p < 0 then Inl ValueError
      else (let M = push_bit (nat p) 1 - 1;
                s = ll_loop (nat (p - 2)) M 4
            in Inr (s = 0)))"

definition lucas_lehmer_test_multiprocessing :: "int \<Rightarrow> error + int \<times> bool" where
  "lucas_lehmer_test_multiprocessing p =
     (case lucas_lehmer_test p of Inl e \<Rightarrow> Inl e | Inr result \<Rightarrow> Inr (p, result))"

definition is_mersenne_prime :: "int \<Rightarrow> error + bool" where
  "is_mersenne_prime p = (if \<not> is_prime p then Inr False else lucas_lehmer_test p)"

text \<open>
  \<open>verify_mersenne_prime\<close> of MERSENNE.py. The module flag \<open>has_gmpy2\<close> and the external
  test \<open>gmpy2.is_prime\<close> are parameters.
\<close>

definition verify_mersenne_prime :: "bool \<Rightarrow> (int \<Rightarrow> bool) \<Rightarrow> int \<Rightarrow> error + bool" where
  "verify_mersenne_prime has_gmpy2 gmpy2_is_prime p =
     (if p < 0 then Inl ValueError
      else (let mersenne_candidate = push_bit (nat p) 1 - 1
            in if has_gmpy2 \<and> p < 100 then Inr (gmpy2_is_prime mersenne_candidate)
               else Inr True))"

text \<open>The inner \<open>while p in known_exponents or not is_prime(p): p += 2\<close>.\<close>

partial_function (option) skip_known :: "int list \<Rightarrow> int \<Rightarrow> int option" where
  "skip_known known_exponents p =
     (if p \<in> set known_exponents \<or> \<not> is_prime p then skip_known known_exponents (p + 2)
      else Some p)"

text \<open>
  \<open>for _ in range(batch_size)\<close>: each round skips to the next candidate, appends it and
  steps past it. The result is the batch and the value of \<open>p\<close> after the loop.
\<close>

fun gen_batch :: "int list \<Rightarrow> nat \<Rightarrow> int \<Rightarrow> int list \<Rightarrow> (int list \<times> int) option" where
  "gen_batch known_exponents 0 p candidates = Some (candidates, p)"
| "gen_batch known_exponents (Suc k) p candidates =
     (case skip_known known_exponents p of
        None \<Rightarrow> None
      | Some q \<Rightarrow> gen_batch known_exponents k (q + 2) (candidates @ [q]))"

text \<open>
  \<open>Pool(num_processes)\<close> raises \<open>ValueError\<close> unless there is at least one process.
  \<open>pool.map\<close> returns the results in the order of its input, whichever worker finishes
  first, and re-raises the exception of a failed task.
\<close>

fun map_tasks :: "('a \<Rightarrow> error + 'b) \<Rightarrow> 'a list \<Rightarrow> error + 'b list" where
  "map_tasks f [] = Inr []"
| "map_tasks f (x # xs) =
     (case f x of
        Inl e \<Rightarrow> Inl e
      | Inr y \<Rightarrow> (case map_tasks f xs of Inl e \<Rightarrow> Inl e | Inr ys \<Rightarrow> Inr (y # ys)))"

definition pool_map :: "int \<Rightarrow> ('a \<Rightarrow> error + 'b) \<Rightarrow> 'a list \<Rightarrow> error + 'b list" where
  "pool_map num_processes f xs = (if num_processes < 1 then Inl ValueError else map_tasks f xs)"

text \<open>The \<open>for candidate_p, is_mersenne in results\<close> loop; \<open>None\<close> when it falls through.\<close>

fun check_results :: "(int \<times> bool) list \<Rightarrow> (int \<times> int) option" where
  "check_results [] = None"
| "check_results ((candidate_p, is_mersenne) # results) =
     (if is_mersenne then Some (push_bit (nat candidate_p) 1 - 1, candidate_p)
      else check_results results)"

text \<open>The outer \<open>while True\<close>.\<close>

partial_function (option) search_loop ::
  "int list \<Rightarrow> int \<Rightarrow> int \<Rightarrow> int \<Rightarrow> (error + int \<times> int) option" where
  "search_loop known_exponents num_processes batch_size p =
     (case gen_batch known_exponents (nat batch_size) p [] of
        None \<Rightarrow> None
      | Some (candidates, p') \<Rightarrow>
          (case pool_map num_processes lucas_lehmer_test_multiprocessing candidates of
             Inl e \<Rightarrow> Some (Inl e)
           | Inr results \<Rightarrow>
               (case check_results results of
                  Some found \<Rightarrow> Some (Inr found)
                | None \<Rightarrow> search_loop known_exponents num_processes batch_size p')))"

text \<open>
  \<open>find_next_mersenne_prime\<close> of MERSENNE.py; \<open>cpu_count\<close> is what
  \<open>multiprocessing.cpu_count()\<close> returns, used when \<open>num_processes\<close> is \<open>None\<close>.
\<close>

definition find_next_mersenne_prime ::
  "int \<Rightarrow> int \<Rightarrow> int list \<Rightarrow> int option \<Rightarrow> (error + int \<times> int) option" where
  "find_next_mersenne_prime cpu_count start known_exponents num_processes =
     (let n = (case num_processes of None \<Rightarrow> cpu_count | Some k \<Rightarrow> k);
          p = start + 1;
          p = (if p mod 2 = 0 then p + 1 else p);
          batch_size = n * 2
      in search_loop known_exponents n batch_size p)"

subsection \<open>Mersenne_GPU.py\<close>

text \<open>
  \<open>split_chunks\<close>: the loop \<open>while number\<close> with the list built so far. A negative
  \<open>chunk_size\<close> makes \<open>1 << chunk_size\<close> raise \<open>ValueError\<close>.
\<close>

partial_function (option) split_chunks_loop ::
  "int \<Rightarrow> int \<Rightarrow> int list \<Rightarrow> (error + int list) option" where
  "split_chunks_loop number chunk_size chunks =
     (if number \<noteq> 0
      then (if chunk_size < 0 then Some (Inl ValueError)
            else split_chunks_loop (drop_bit (nat chunk_size) number) chunk_size
                   (chunks @ [number AND (push_bit (nat chunk_size) 1 - 1)]))
      else Some (Inr chunks))"

definition split_chunks :: "int \<Rightarrow> int \<Rightarrow> (error + int list) option" where
  "split_chunks number chunk_size = split_chunks_loop number chunk_size []"

text \<open>\<open>combine_chunks\<close>: the loop over \<open>reversed(chunks)\<close>.\<close>

fun combine_loop :: "int \<Rightarrow> int list \<Rightarrow> int \<Rightarrow> error + int" where
  "combine_loop chunk_size [] number = Inr number"
| "combine_loop chunk_size (chunk # rest) number =
     (if chunk_size < 0 then Inl ValueError
      else combine_loop chunk_size rest (push_bit (nat chunk_size) number OR chunk))"

definition combine_chunks :: "int list \<Rightarrow> int \<Rightarrow> error + int" where
  "combine_chunks chunks chunk_size = combine_loop chunk_size (rev chunks) 0"

text \<open>
  The kernel is compiled by numba for \<open>int64\<close> arguments: \<open>s\<close>, \<open>M\<close> and the array
  elements are 64-bit two's complement integers whose \<open>+\<close>, \<open>-\<close>, \<open>*\<close> and \<open><<\<close> wrap
  around, and \<open>%\<close> is Python's floored modulo on the signed values. A shift by 64 or more
  gives 0 here, as the device's shift instruction does.
\<close>

type_synonym int64 = "64 word"

definition mod_int64 :: "int64 \<Rightarrow> int64 \<Rightarrow> error + int64" where
  "mod_int64 a b =
     (if b = 0 then Inl ZeroDivisionError else Inr (word_of_int (sint a mod sint b)))"

text \<open>The kernel's \<open>for _ in range(p - 2): s = (s * s - 2) % M\<close>.\<close>

fun kernel_loop :: "nat \<Rightarrow> int64 \<Rightarrow> int64 \<Rightarrow> error + int64" where
  "kernel_loop 0 M s = Inr s"
| "kernel_loop (Suc k) M s =
     (case mod_int64 (s * s - 2) M of
        Inl e \<Rightarrow> Inl e
      | Inr s' \<Rightarrow> kernel_loop k M s')"

text \<open>
  \<open>lucas_lehmer_kernel_chunked\<close> as run by the thread with \<open>idx == 0\<close> (the other threads
  do nothing); the result is the array \<open>s_array\<close> after the launch.
\<close>

definition lucas_lehmer_kernel_chunked ::
  "int64 list \<Rightarrow> int \<Rightarrow> int64 list \<Rightarrow> nat \<Rightarrow> error + int64 list" where
  "lucas_lehmer_kernel_chunked s_array p M_chunks chunk_size =
     (let s = 4;
          M = fold (\<lambda>i M. M + push_bit (i * chunk_size) (M_chunks ! i)) [0..<length M_chunks] 0
      in case kernel_loop (nat (p - 2)) M s of
           Inl e \<Rightarrow> Inl e
         | Inr s \<Rightarrow> Inr (s_array[0 := s]))"

text \<open>
  The host side of \<open>lucas_lehmer_test_cuda\<close> up to \<open>s_array.copy_to_host()\<close>. The
  device array is allocated uninitialised and is read only after thread 0 has written
  it; a grid of zero blocks (no chunk at all) starts no thread and is a failure here.
\<close>

definition cuda_s_result :: "int \<Rightarrow> (error + int64 list) option" where
  "cuda_s_result p =
     (if p < 0 then Some (Inl ValueError)
      else (let s_array = [0];
                chunk_size = 30;
                M = push_bit (nat p) 1 - 1
            in case split_chunks M chunk_size of
                 None \<Rightarrow> None
               | Some (Inl e) \<Rightarrow> Some (Inl e)
               | Some (Inr M_chunks) \<Rightarrow>
                   (let M_chunks_device = map word_of_int M_chunks;
                        threads_per_block = 32;
                        blocks_per_grid =
                          (length M_chunks + threads_per_block - 1) div threads_per_block
                    in if blocks_per_grid = 0 then Some (Inl LaunchFailure)
                       else Some (lucas_lehmer_kernel_chunked s_array p M_chunks_device
                                    (nat chunk_size)))))"

definition lucas_lehmer_test_cuda :: "int \<Rightarrow> (error + bool) option" where
  "lucas_lehmer_test_cuda p =
     (if p = 2 then Some (Inr True)
      else (case cuda_s_result p of
              None \<Rightarrow> None
            | Some (Inl e) \<Rightarrow> Some (Inl e)
            | Some (Inr s_result) \<Rightarrow> Some (Inr (s_result ! 0 = 0))))"

text \<open>
  \<open>find_next_mersenne_prime\<close> of Mersenne_GPU.py. The list \<open>submitted\<close> is not in the
  source: it records, in order, every exponent passed to \<open>lucas_lehmer_test_cuda\<close>.
\<close>

partial_function (option) gpu_search_loop ::
  "int list \<Rightarrow> int \<Rightarrow> int list \<Rightarrow> ((error + int \<times> int) \<times> int list) option" where
  "gpu_search_loop known_exponents p submitted =
     (let p = p + 1
      in if p \<in> set known_exponents then gpu_search_loop known_exponents p submitted
         else if p mod 6 \<notin> {1, 5} then gpu_search_loop known_exponents p submitted
         else (case lucas_lehmer_test_cuda p of
                 None \<Rightarrow> None
               | Some (Inl e) \<Rightarrow> Some (Inl e, submitted @ [p])
               | Some (Inr is_mersenne) \<Rightarrow>
                   if is_mersenne then Some (Inr (push_bit (nat p) 1 - 1, p), submitted @ [p])
                   else gpu_search_loop known_exponents p (submitted @ [p])))"

definition find_next_mersenne_prime_gpu :: "int \<Rightarrow> int list \<Rightarrow> (error + int \<times> int) option" where
  "find_next_mersenne_prime_gpu start known_exponents =
     map_option fst (gpu_search_loop known_exponents start [])"

text \<open>\<open>verify_mersenne_prime\<close> of Mersenne_GPU.py: the external test, for every exponent.\<close>

definition verify_mersenne_prime_gpu :: "(int \<Rightarrow> bool) \<Rightarrow> int \<Rightarrow> error + bool" where
  "verify_mersenne_prime_gpu gmpy2_is_prime p =
     (if p < 0 then Inl ValueError
      else (let mersenne_candidate = push_bit (nat p) 1 - 1
            in Inr (gmpy2_is_prime mersenne_candidate)))"

section \<open>Notions used to state the properties\<close>

text \<open>
  The Lucas-Lehmer test as the specification words it: true at \<open>p = 2\<close>; otherwise start
  from 4, apply \<open>s \<leftarrow> (s\<^sup>2 - 2) mod (2\<^sup>p - 1)\<close> exactly \<open>p - 2\<close> times and compare with 0.
\<close>

definition lucas_lehmer_spec :: "int \<Rightarrow> bool" where
  "lucas_lehmer_spec p =
     (if p = 2 then True
      else ((\<lambda>s::int. (s\<^sup>2 - 2) mod (2 ^ nat p - 1)) ^^ nat (p - 2)) 4 = 0)"

text \<open>The round trip \<open>combine_chunks(split_chunks(M, chunk_size), chunk_size)\<close>.\<close>

definition round_trip :: "int \<Rightarrow> int \<Rightarrow> (error + int) option" where
  "round_trip M chunk_size =
     (case split_chunks M chunk_size of
        None \<Rightarrow> None
      | Some (Inl e) \<Rightarrow> Some (Inl e)
      | Some (Inr chunks) \<Rightarrow> Some (combine_chunks chunks chunk_size))"

text \<open>
  A candidate exponent of MERSENNE.py: odd, not yet known, and prime by trial division.
  A hit from \<open>p\<close> on is a candidate at or after \<open>p\<close> that passes the Lucas-Lehmer test.
\<close>

definition candidate :: "int list \<Rightarrow> int \<Rightarrow> bool" where
  "candidate known_exponents c \<longleftrightarrow> odd c \<and> c \<notin> set known_exponents \<and> is_prime c"

definition hit :: "int list \<Rightarrow> int \<Rightarrow> int \<Rightarrow> bool" where
  "hit known_exponents p c \<longleftrightarrow>
     p \<le> c \<and> candidate known_exponents c \<and> lucas_lehmer_test c = Inr True"


text \<open>
  The ring \<open>\<int>[\<surd>3]\<close>, as pairs \<open>a + b\<surd>3\<close>, in which the Lucas-Lehmer sequence has the
  closed form \<open>(2 + \<surd>3) ^ (2 ^ k) + (2 - \<surd>3) ^ (2 ^ k)\<close>; \<open>red q\<close> reduces both
  coefficients modulo \<open>q\<close>, and \<open>lucas_seq\<close> is the sequence without reduction.
\<close>

datatype zsqrt3 = Zsqrt3 (rat_part: int) (irr_part: int)

instantiation zsqrt3 :: comm_ring_1
begin

definition zero_zsqrt3 :: zsqrt3 where "zero_zsqrt3 = Zsqrt3 0 0"
definition one_zsqrt3 :: zsqrt3 where "one_zsqrt3 = Zsqrt3 1 0"
definition plus_zsqrt3 :: "zsqrt3 \<Rightarrow> zsqrt3 \<Rightarrow> zsqrt3" where
  "plus_zsqrt3 x y = Zsqrt3 (rat_part x + rat_part y) (irr_part x + irr_part y)"
definition uminus_zsqrt3 :: "zsqrt3 \<Rightarrow> zsqrt3" where
  "uminus_zsqrt3 x = Zsqrt3 (- rat_part x) (- irr_part x)"
definition minus_zsqrt3 :: "zsqrt3 \<Rightarrow> zsqrt3 \<Rightarrow> zsqrt3" where
  "minus_zsqrt3 x y = Zsqrt3 (rat_part x - rat_part y) (irr_part x - irr_part y)"
definition times_zsqrt3 :: "zsqrt3 \<Rightarrow> zsqrt3 \<Rightarrow> zsqrt3" where
  "times_zsqrt3 x y =
     Zsqrt3 (rat_part x * rat_part y + 3 * (irr_part x * irr_part y))
            (rat_part x * irr_part y + irr_part x * rat_part y)"

instance
  by standard
    (simp_all add: zero_zsqrt3_def one_zsqrt3_def plus_zsqrt3_def uminus_zsqrt3_def
      minus_zsqrt3_def times_zsqrt3_def algebra_simps)

end

definition omega :: zsqrt3 where "omega = Zsqrt3 2 1"
definition omega' :: zsqrt3 where "omega' = Zsqrt3 2 (- 1)"

definition red :: "int \<Rightarrow> zsqrt3 \<Rightarrow> int \<times> int" where
  "red q x = (rat_part x mod q, irr_part x mod q)"

fun lucas_seq :: "nat \<Rightarrow> int" where
  "lucas_seq 0 = 4"
| "lucas_seq (Suc k) = (lucas_seq k)\<^sup>2 - 2"


text \<open>
  Evaluation of one round of the test for a Mersenne modulus \<open>M = 2 ^ p - 1\<close>: the
  reduction adds the low \<open>p\<close> bits to the rest, and the square of a wide number is
  assembled from the squares of its halves (Karatsuba). Both are shown below to compute
  what \<open>ll_loop\<close> computes.
\<close>

definition mersenne_step :: "nat \<Rightarrow> int \<Rightarrow> int \<Rightarrow> int" where
  "mersenne_step p M s =
     (let x = s\<^sup>2 - 2;
          y = take_bit p x + drop_bit p x
      in if 0 \<le> y \<and> y < M then y
         else if M \<le> y \<and> y < 2 * M then y - M
         else y mod M)"

definition ksplit :: "nat \<Rightarrow> (int \<Rightarrow> int) \<Rightarrow> int \<Rightarrow> int" where
  "ksplit k sq x =
     (let lo = take_bit k x;
          hi = drop_bit k x;
          a = sq hi;
          c = sq lo;
          e = sq (hi + lo)
      in push_bit (2 * k) a + push_bit k (e - a - c) + c)"

definition ksquare3 :: "int \<Rightarrow> int" where
  "ksquare3 = ksplit 261 (ksplit 131 (ksplit 66 (\<lambda>y. y\<^sup>2)))"

definition mersenne_step_k :: "(int \<Rightarrow> int) \<Rightarrow> nat \<Rightarrow> int \<Rightarrow> int \<Rightarrow> int" where
  "mersenne_step_k sq p M s =
     (let x = sq s - 2;
          y = take_bit p x + drop_bit p x
      in if 0 \<le> y \<and> y < M then y
         else if M \<le> y \<and> y < 2 * M then y - M
         else y mod M)"

text \<open>
  Whether some product \<open>s * s\<close> of the kernel's loop, taken on the exact signed values,
  falls outside the range of \<open>int64\<close>.
\<close>

definition in_int64 :: "int \<Rightarrow> bool" where
  "in_int64 x \<longleftrightarrow> - (2 ^ 63) \<le> x \<and> x < 2 ^ 63"

fun kernel_overflows :: "nat \<Rightarrow> int64 \<Rightarrow> int64 \<Rightarrow> bool" where
  "kernel_overflows 0 M s = False"
| "kernel_overflows (Suc k) M s =
     (\<not> in_int64 (sint s * sint s) \<or>
      (case mod_int64 (s * s - 2) M of
         Inl e \<Rightarrow> False
       | Inr s' \<Rightarrow> kernel_overflows k M s'))"

text \<open>
  The kernel's loop and its overflow test once more, on \<^typ>\<open>int\<close> with the wrap-around
  of \<open>int64\<close> written out as \<open>signed_take_bit 63\<close>.
\<close>

fun kernel_loop_int :: "nat \<Rightarrow> int \<Rightarrow> int \<Rightarrow> int" where
  "kernel_loop_int 0 M s = s"
| "kernel_loop_int (Suc k) M s = kernel_loop_int k M (signed_take_bit 63 (s * s - 2) mod M)"

fun kernel_overflows_int :: "nat \<Rightarrow> int \<Rightarrow> int \<Rightarrow> bool" where
  "kernel_overflows_int 0 M s = False"
| "kernel_overflows_int (Suc k) M s =
     (if in_int64 (signed_take_bit 63 s * signed_take_bit 63 s)
      then kernel_overflows_int k M (signed_take_bit 63 (s * s - 2) mod M)
      else True)"

section \<open>The Lucas-Lehmer test\<close>

lemma ll_loop_funpow: "ll_loop k M s = ((\<lambda>s. (s\<^sup>2 - 2) mod M) ^^ k) s"
  by (induction k arbitrary: s)
    (simp_all add: funpow_Suc_right power2_eq_square del: funpow.simps)

text \<open>
  C2. For every exponent \<open>p \<ge> 2\<close> (prime or not), \<open>lucas_lehmer_test\<close> returns without
  error what the specification describes: true at \<open>p = 2\<close>, and otherwise whether \<open>p - 2\<close>
  rounds of \<open>s \<leftarrow> (s\<^sup>2 - 2) mod (2\<^sup>p - 1)\<close> from \<open>s = 4\<close> end at 0.
\<close>

theorem lucas_lehmer_test_meets_spec:
  assumes "2 \<le> p"
  shows "lucas_lehmer_test p = Inr (lucas_lehmer_spec p)"
  using assms by (simp add: lucas_lehmer_test_def lucas_lehmer_spec_def ll_loop_funpow)

theorem lucas_lehmer_test_meets_spec_witness:
  "(2::int) \<le> 5 \<and> lucas_lehmer_test 5 = Inr (lucas_lehmer_spec 5) \<and> lucas_lehmer_test 5 = Inr True"
proof -
  have "lucas_lehmer_test 5 = Inr True"
    by (simp add: lucas_lehmer_test_def numeral_eq_Suc)
  with lucas_lehmer_test_meets_spec [of 5] show ?thesis
    by simp
qed

section \<open>Evaluating the test for a Mersenne modulus\<close>

lemma mersenne_fold: "x mod (2 ^ p - 1) = (take_bit p x + drop_bit p x) mod (2 ^ p - 1 :: int)"
proof -
  have "x = drop_bit p x * (2 ^ p - 1) + (take_bit p x + drop_bit p x)"
    using bits_ident [of p x] by (simp add: push_bit_eq_mult algebra_simps)
  then have "x mod (2 ^ p - 1) = (drop_bit p x * (2 ^ p - 1) + (take_bit p x + drop_bit p x)) mod (2 ^ p - 1)"
    by simp
  then show ?thesis
    by (simp only: mod_mult_self3)
qed

lemma mersenne_step_eq:
  assumes "M = 2 ^ p - 1" "0 < M"
  shows "mersenne_step p M s = (s * s - 2) mod M"
proof -
  define y where "y = take_bit p (s\<^sup>2 - 2) + drop_bit p (s\<^sup>2 - 2)"
  have "(s * s - 2) mod M = y mod M"
    unfolding y_def assms(1) power2_eq_square by (rule mersenne_fold)
  moreover have "y mod M = y" if "0 \<le> y \<and> y < M"
    using that by simp
  moreover have "y mod M = y - M" if "M \<le> y \<and> y < 2 * M"
  proof -
    have "y mod M = (y - M) mod M"
      by simp
    also have "\<dots> = y - M"
      using that by (intro mod_pos_pos_trivial) simp_all
    finally show ?thesis .
  qed
  ultimately show ?thesis
    by (simp add: mersenne_step_def y_def [symmetric] Let_def)
qed

lemma ll_loop_mersenne:
  assumes "M = 2 ^ p - 1" "0 < M"
  shows "ll_loop (numeral n) M s = ll_loop (pred_numeral n) M (mersenne_step p M s)"
  by (simp add: numeral_eq_Suc mersenne_step_eq [OF assms])

lemma drop_bit_numeral_One: "drop_bit (numeral l) (numeral Num.One :: int) = 0"
  by simp

lemmas mersenne_eval =
  ll_loop.simps(1) mersenne_step_def Let_numeral Let_neg_numeral Let_0 Let_1
  power_numeral Num.pow.simps Num.sqr.simps arith_simps rel_simps
  take_bit_numeral_numeral take_bit_num_simps
  drop_bit_numeral_bit0 drop_bit_numeral_bit1 drop_bit_numeral_One drop_bit_0 id_apply
  pred_numeral_simps option.case if_True if_False simp_thms numeral_One [symmetric]

lemma ksplit_square:
  assumes "\<And>y. sq y = y\<^sup>2"
  shows "ksplit k sq x = x\<^sup>2"
proof -
  define lo where "lo = take_bit k x"
  define hi where "hi = drop_bit k x"
  define b :: int where "b = 2 ^ k"
  have x: "x = b * hi + lo"
    using bits_ident [of k x] by (simp add: push_bit_eq_mult lo_def hi_def b_def mult.commute)
  have b2: "2 ^ (2 * k) = b * b"
    by (simp add: b_def power_add [symmetric] mult_2)
  have mid: "(hi + lo)\<^sup>2 - hi\<^sup>2 - lo\<^sup>2 = 2 * hi * lo"
    by (simp add: power2_sum)
  have "ksplit k sq x = hi\<^sup>2 * (b * b) + ((hi + lo)\<^sup>2 - hi\<^sup>2 - lo\<^sup>2) * b + lo\<^sup>2"
    by (simp add: ksplit_def Let_def assms push_bit_eq_mult lo_def hi_def b2 b_def)
  also have "\<dots> = hi\<^sup>2 * (b * b) + 2 * hi * lo * b + lo\<^sup>2"
    by (simp only: mid)
  also have "\<dots> = (b * hi + lo)\<^sup>2"
    by (simp only: power2_eq_square) algebra
  finally show ?thesis
    by (simp only: x)
qed

lemma ksquare3: "ksquare3 x = x\<^sup>2"
  unfolding ksquare3_def by (intro ksplit_square refl)

lemma ll_loop_mersenne_k:
  assumes "M = 2 ^ p - 1" "0 < M" "\<And>y. sq y = y\<^sup>2"
  shows "ll_loop (numeral n) M s = ll_loop (pred_numeral n) M (mersenne_step_k sq p M s)"
proof -
  have "mersenne_step_k sq p M s = mersenne_step p M s"
    by (simp add: mersenne_step_k_def mersenne_step_def assms(3))
  with ll_loop_mersenne [OF assms(1,2)] show ?thesis
    by simp
qed

lemmas karatsuba_eval =
  ksplit_def push_bit_numeral push_bit_0_id push_bit_of_0 mersenne_step_k_def

section \<open>A small factor of the Mersenne number makes the test fail\<close>

lemma omega_inv: "omega * omega' = 1"
  by (simp add: omega_def omega'_def times_zsqrt3_def one_zsqrt3_def)

lemma red_mult_cong:
  "red q x = red q x' \<Longrightarrow> red q y = red q y' \<Longrightarrow> red q (x * y) = red q (x' * y')"
  unfolding red_def times_zsqrt3_def
  by (auto intro!: mod_add_cong mod_mult_cong)


lemma ll_loop_Suc_end: "ll_loop (Suc k) M s = (ll_loop k M s * ll_loop k M s - 2) mod M"
  by (induction k arbitrary: s) simp_all

lemma ll_loop_lucas_seq: "ll_loop k M 4 mod M = lucas_seq k mod M"
proof (induction k)
  case 0
  show ?case by simp
next
  case (Suc k)
  have "(ll_loop k M 4 * ll_loop k M 4 - 2) mod M = (lucas_seq k * lucas_seq k - 2) mod M"
    by (intro mod_diff_cong mod_mult_cong Suc refl)
  then show ?case
    by (simp only: ll_loop_Suc_end lucas_seq.simps power2_eq_square mod_mod_trivial)
qed

lemma two_zsqrt3: "(2 :: zsqrt3) = Zsqrt3 2 0"
proof -
  have "(2 :: zsqrt3) = 1 + 1"
    by simp
  also have "\<dots> = Zsqrt3 2 0"
    by (simp add: one_zsqrt3_def plus_zsqrt3_def)
  finally show ?thesis .
qed

lemma lucas_seq_omega: "Zsqrt3 (lucas_seq k) 0 = omega ^ (2 ^ k) + omega' ^ (2 ^ k)"
proof (induction k)
  case 0
  show ?case
    by (simp add: omega_def omega'_def plus_zsqrt3_def)
next
  case (Suc k)
  have of_int: "Zsqrt3 (a\<^sup>2 - 2) 0 = (Zsqrt3 a 0)\<^sup>2 - 2" for a
    by (simp add: power2_eq_square times_zsqrt3_def minus_zsqrt3_def two_zsqrt3)
  have "(omega ^ (2 ^ k) + omega' ^ (2 ^ k))\<^sup>2
      = omega ^ (2 ^ Suc k) + omega' ^ (2 ^ Suc k) + 2 * (omega * omega') ^ (2 ^ k)"
    by (simp add: power2_sum power_mult_distrib power_mult [symmetric] mult.commute)
  then show ?case
    by (simp add: of_int Suc omega_inv)
qed


lemma dvd_power2_even:
  fixes k :: nat
  assumes "k dvd 2 ^ n" "k \<noteq> 1"
  shows "even k"
proof (rule ccontr)
  assume "odd k"
  then have "coprime k 2"
    by simp
  then have "coprime k (2 ^ n)"
    by simp
  with assms(1) have "is_unit k"
    using coprime_common_divisor [of k "2 ^ n" k] by simp
  with assms(2) show False
    by simp
qed

lemma red_power_neg_one:
  assumes q: "q dvd lucas_seq k"
  shows "red q (omega ^ (2 ^ Suc k)) = red q (- 1)"
proof -
  define a where "a = omega ^ (2 ^ k)"
  define b where "b = omega' ^ (2 ^ k)"
  from q obtain t where t: "lucas_seq k = q * t" ..
  have ab: "a * b = 1"
    by (simp add: a_def b_def power_mult_distrib [symmetric] omega_inv)
  have "Zsqrt3 (q * t) 0 = a + b"
    using lucas_seq_omega [of k] by (simp add: t a_def b_def)
  then have "Zsqrt3 (q * t) 0 * a = a * a + a * b"
    by (simp add: algebra_simps)
  then have "a * a = Zsqrt3 (q * t) 0 * a - 1"
    by (simp add: ab)
  moreover have "a * a = omega ^ (2 ^ Suc k)"
    by (simp add: a_def power_add [symmetric] mult_2)
  ultimately have "omega ^ (2 ^ Suc k) = Zsqrt3 (q * t) 0 * a - 1"
    by simp
  then show ?thesis
    by (simp add: red_def times_zsqrt3_def minus_zsqrt3_def one_zsqrt3_def uminus_zsqrt3_def
        mod_diff_left_eq [symmetric, of "q * _"] mult.assoc)
qed

lemma lucas_no_small_factor:
  fixes p :: nat and q :: int
  assumes p: "2 \<le> p" and q1: "1 < q" and qd: "q dvd 2 ^ p - 1" and qs: "q * q < 2 ^ p"
  shows "ll_loop (p - 2) (2 ^ p - 1) 4 \<noteq> 0"
proof
  assume z: "ll_loop (p - 2) (2 ^ p - 1) 4 = 0"
  define M :: int where "M = 2 ^ p - 1"
  have "lucas_seq (p - 2) mod M = 0"
    using ll_loop_lucas_seq [of "p - 2" M] z by (simp add: M_def)
  then have "M dvd lucas_seq (p - 2)"
    by auto
  with qd have "q dvd lucas_seq (p - 2)"
    unfolding M_def by (rule dvd_trans)
  then have "red q (omega ^ (2 ^ Suc (p - 2))) = red q (- 1)"
    by (rule red_power_neg_one)
  moreover have "Suc (p - 2) = p - 1"
    using p by simp
  ultimately have half: "red q (omega ^ (2 ^ (p - 1))) = red q (- 1)"
    by (simp only:)
  define E where "E n \<longleftrightarrow> red q (omega ^ n) = red q 1" for n
  have E_add: "E (m + n)" if "E m" "E n" for m n
    using red_mult_cong [of q "omega ^ m" 1 "omega ^ n" 1] that
    by (simp add: E_def power_add)
  have E_cancel: "E n" if "E (m + n)" "E m" for m n
    using red_mult_cong [of q "omega ^ m" 1 "omega ^ n" "omega ^ n"] that
    by (simp add: E_def power_add)
  have E_mult: "E (m * k)" if "E m" for m k
    by (induction k) (use that E_add in \<open>auto simp: E_def\<close>)
  have "2 ^ p = 2 ^ (p - 1) + (2 ^ (p - 1) :: nat)"
    using p by (cases p) simp_all
  then have "omega ^ (2 ^ p) = omega ^ (2 ^ (p - 1)) * omega ^ (2 ^ (p - 1))"
    by (simp add: power_add [symmetric])
  with red_mult_cong [OF half half] have E2p: "E (2 ^ p)"
    by (simp add: E_def)
  have "odd ((2::int) ^ p - 1)"
    using p by simp
  with qd have odd_q: "odd q"
    by (meson dvd_trans)
  have notE: "\<not> E (2 ^ (p - 1))"
  proof
    assume "E (2 ^ (p - 1))"
    with half have "(- 1) mod q = 1 mod q"
      by (simp add: E_def red_def uminus_zsqrt3_def one_zsqrt3_def)
    then have "q dvd 2"
      by (simp add: mod_eq_dvd_iff)
    then have "q \<le> 2"
      by (rule zdvd_imp_le) simp
    with q1 have "q = 2"
      by simp
    with odd_q show False
      by simp
  qed
  define d where "d = (LEAST n. 0 < n \<and> E n)"
  have "0 < (2::nat) ^ p \<and> E (2 ^ p)"
    using E2p by simp
  then have d: "0 < d \<and> E d"
    unfolding d_def by (rule LeastI)
  have d_le: "d \<le> n" if "0 < n" "E n" for n
    unfolding d_def using that by (intro Least_le) simp
  have d_dvd: "d dvd n" if "E n" for n
  proof -
    have "E (d * (n div d) + n mod d)"
      using that by simp
    then have "E (n mod d)"
      using E_cancel E_mult d by blast
    moreover have "n mod d < d"
      using d by simp
    ultimately have "n mod d = 0"
      using d_le [of "n mod d"] by fastforce
    then show ?thesis
      by auto
  qed
  from d_dvd [OF E2p] obtain k where k: "2 ^ p = d * k" ..
  have "k = 1"
  proof (rule ccontr)
    assume "k \<noteq> 1"
    moreover have "k dvd 2 ^ p"
      using k by simp
    ultimately have "even k"
      by (rule dvd_power2_even [rotated])
    then obtain k' where k': "k = 2 * k'" ..
    have "(2::nat) * 2 ^ (p - 1) = 2 * (d * k')"
      using k k' p by (cases p) simp_all
    then have "2 ^ (p - 1) = d * k'"
      by simp
    with E_mult [of d k'] d notE show False
      by simp
  qed
  with k have d_eq: "d = 2 ^ p"
    by simp
  let ?f = "\<lambda>n. red q (omega ^ n)"
  have "inj_on ?f {..<2 ^ p}"
  proof (rule linorder_inj_onI)
    fix i j :: nat
    assume ij: "i < j" and "i \<in> {..<2 ^ p}" and j: "j \<in> {..<2 ^ p}"
    show "?f i \<noteq> ?f j"
    proof
      assume eq: "?f i = ?f j"
      have inv: "omega' ^ i * omega ^ i = 1"
        by (simp add: power_mult_distrib [symmetric] omega_inv mult.commute)
      have "omega ^ (j - i) = omega' ^ i * omega ^ i * omega ^ (j - i)"
        by (simp add: inv)
      also have "\<dots> = omega' ^ i * omega ^ j"
        using ij by (simp add: power_add [symmetric] mult.assoc)
      finally have "red q (omega ^ (j - i)) = red q (omega' ^ i * omega ^ j)"
        by simp
      also have "\<dots> = red q (omega' ^ i * omega ^ i)"
        by (rule red_mult_cong) (simp_all add: eq)
      finally have "E (j - i)"
        by (simp add: E_def inv)
      from d_le [OF _ this] ij j show False
        by (simp add: d_eq)
    qed
  qed (rule linear)
  then have "card (?f ` {..<2 ^ p}) = 2 ^ p"
    by (simp add: card_image)
  moreover have "?f ` {..<2 ^ p} \<subseteq> {0..<q} \<times> {0..<q}"
    using q1 by (auto simp: red_def)
  then have "card (?f ` {..<2 ^ p}) \<le> card ({0..<q} \<times> {0..<q})"
    by (intro card_mono) simp_all
  ultimately have "2 ^ p \<le> nat q * nat q"
    by (simp add: card_cartesian_product)
  then have "int (2 ^ p) \<le> int (nat q * nat q)"
    by (simp only: of_nat_le_iff)
  then have "(2::int) ^ p \<le> q * q"
    using q1 by simp
  with qs show False
    by simp
qed


lemma lucas_lehmer_test_composite:
  fixes q c :: int
  assumes "2 < p" "1 < q" "q * c = 2 ^ nat p - 1" "q * q < 2 ^ nat p"
  shows "lucas_lehmer_test p = Inr False"
proof -
  have "q dvd 2 ^ nat p - 1"
    using assms(3) by (metis dvd_triv_left)
  with assms have "ll_loop (nat p - 2) (2 ^ nat p - 1) 4 \<noteq> 0"
    by (intro lucas_no_small_factor) simp_all
  moreover have "nat (p - 2) = nat p - 2"
    using assms(1) by simp
  ultimately show ?thesis
    using assms(1) by (simp add: lucas_lehmer_test_def)
qed

section \<open>The result verifier\<close>

text \<open>
  C9, as amended. In MERSENNE.py the external test is consulted exactly when gmpy2 is
  available and \<open>p < 100\<close>, and every other exponent \<open>p \<ge> 0\<close> is accepted unconditionally;
  in Mersenne_GPU.py there is no threshold and the answer is the external test's, for
  every \<open>p \<ge> 0\<close>.
\<close>

theorem verify_mersenne_prime_threshold:
  assumes "0 \<le> p"
  shows "verify_mersenne_prime has_gmpy2 gmpy2_is_prime p
           = Inr (if has_gmpy2 \<and> p < 100 then gmpy2_is_prime (2 ^ nat p - 1) else True)
       \<and> verify_mersenne_prime_gpu gmpy2_is_prime p = Inr (gmpy2_is_prime (2 ^ nat p - 1))"
  using assms by (simp add: verify_mersenne_prime_def verify_mersenne_prime_gpu_def)

theorem verify_mersenne_prime_threshold_witness:
  "(0::int) \<le> 100 \<and> verify_mersenne_prime True is_prime 100 = Inr True
     \<and> verify_mersenne_prime_gpu is_prime 100 = Inr (is_prime (2 ^ nat 100 - 1))"
  using verify_mersenne_prime_threshold [of 100 True is_prime] by simp

text \<open>
  The claim as stated fails for Mersenne_GPU.py: with trial division as the external
  test, the exponent 100 (at the threshold of MERSENNE.py) is rejected, since
  \<open>2\<^sup>1\<^sup>0\<^sup>0 - 1\<close> is divisible by 3.
\<close>

theorem verify_mersenne_prime_gpu_counterexample:
  "verify_mersenne_prime_gpu is_prime 100 = Inr False"
  by (simp add: verify_mersenne_prime_gpu_def is_prime_def)

section \<open>Splitting into chunks and recombining\<close>

lemma split_neg_aux:
  assumes "split_chunks_loop number chunk_size chunks = Some r"
  shows "1 \<le> chunk_size \<longrightarrow> 0 \<le> number"
proof (rule split_chunks_loop.raw_induct
    [where P = "\<lambda>number chunk_size chunks r. 1 \<le> chunk_size \<longrightarrow> 0 \<le> number", OF _ assms])
  fix f number chunk_size chunks r
  assume IH: "\<And>number chunk_size chunks r. f number chunk_size chunks = Some r
                \<Longrightarrow> 1 \<le> chunk_size \<longrightarrow> (0::int) \<le> number"
    and eq: "(if number \<noteq> 0
          then if chunk_size < 0 then Some (Inl ValueError)
               else f (drop_bit (nat chunk_size) number) chunk_size
                     (chunks @ [number AND push_bit (nat chunk_size) 1 - 1])
          else Some (Inr chunks)) = Some r"
  show "1 \<le> chunk_size \<longrightarrow> 0 \<le> number"
  proof
    assume cs: "1 \<le> chunk_size"
    show "0 \<le> number"
    proof (cases "number = 0")
      case True
      then show ?thesis by simp
    next
      case False
      with eq cs have "f (drop_bit (nat chunk_size) number) chunk_size
                     (chunks @ [number AND push_bit (nat chunk_size) 1 - 1]) = Some r"
        by simp
      from IH [OF this] cs have "0 \<le> drop_bit (nat chunk_size) number"
        by simp
      then show ?thesis by simp
    qed
  qed
qed

lemma or_chunk:
  fixes c :: int
  assumes "0 \<le> c" "c < 2 ^ n"
  shows "push_bit n number OR c = push_bit n number + c"
proof -
  have "take_bit n c = c"
    using assms by (simp add: take_bit_int_eq_self)
  then have lt: "k < n" if "bit c k" for k
    using that by (metis bit_take_bit_iff)
  have "\<not> bit (push_bit n number) k \<or> \<not> bit c k" for k
    using lt [of k] by (auto simp: bit_push_bit_iff)
  then show ?thesis
    by (rule disjunctive_add [symmetric])
qed

lemma combine_loop_value:
  "0 \<le> chunk_size \<Longrightarrow> \<forall>c\<in>set cs. 0 \<le> c \<and> c < 2 ^ nat chunk_size \<Longrightarrow>
   combine_loop chunk_size (rev cs) number = Inr (foldr (\<lambda>c n. c + 2 ^ nat chunk_size * n) cs number)"
proof (induction cs arbitrary: number rule: rev_induct)
  case Nil
  then show ?case by simp
next
  case (snoc c cs)
  have "push_bit (nat chunk_size) number OR c = push_bit (nat chunk_size) number + c"
    using snoc.prems by (intro or_chunk) auto
  with snoc show ?case
    by (simp add: push_bit_eq_mult mult.commute add.commute)
qed

lemma chunk_mask: "number AND (push_bit n 1 - 1) = take_bit n (number :: int)"
  by (simp add: take_bit_eq_mask mask_eq_exp_minus_1)

lemma split_loop_nonneg:
  "0 \<le> number \<Longrightarrow> 1 \<le> chunk_size \<Longrightarrow>
   \<exists>ds. split_chunks_loop number chunk_size chunks = Some (Inr (chunks @ ds))
      \<and> (\<forall>c\<in>set ds. 0 \<le> c \<and> c < 2 ^ nat chunk_size)
      \<and> foldr (\<lambda>c n. c + 2 ^ nat chunk_size * n) ds 0 = number"
proof (induction "nat number" arbitrary: number chunks rule: less_induct)
  case less
  show ?case
  proof (cases "number = 0")
    case True
    then show ?thesis
      by (subst split_chunks_loop.simps) simp
  next
    case False
    define n where "n = nat chunk_size"
    define q where "q = drop_bit n number"
    define d where "d = take_bit n number"
    have n: "0 < n"
      using less.prems by (simp add: n_def)
    have pos: "0 < number"
      using False less.prems by simp
    have "q < number"
      unfolding q_def drop_bit_eq_div using pos n
      by (intro int_div_less_self) (simp_all add: one_less_power)
    moreover have q0: "0 \<le> q"
      using less.prems by (simp add: q_def)
    ultimately have "nat q < nat number"
      by simp
    from less.hyps [OF this q0 less.prems(2), of "chunks @ [d]"]
    obtain ds where ds: "split_chunks_loop q chunk_size (chunks @ [d]) = Some (Inr (chunks @ [d] @ ds))"
      "\<forall>c\<in>set ds. 0 \<le> c \<and> c < 2 ^ nat chunk_size"
      "foldr (\<lambda>c n. c + 2 ^ nat chunk_size * n) ds 0 = q"
      by auto
    have step: "split_chunks_loop number chunk_size chunks = split_chunks_loop q chunk_size (chunks @ [d])"
      using False less.prems
      by (subst split_chunks_loop.simps) (simp add: take_bit_eq_mask mask_eq_exp_minus_1 q_def d_def n_def)
    have "d + 2 ^ n * q = number"
      unfolding d_def q_def
      by (metis add.commute bits_ident push_bit_eq_mult mult.commute)
    moreover have "0 \<le> d" "d < 2 ^ n"
      by (simp_all add: d_def)
    ultimately show ?thesis
      using ds step by (intro exI [of _ "d # ds"]) (simp add: n_def)
  qed
qed

lemma split_chunks_neg: "number < 0 \<Longrightarrow> 1 \<le> chunk_size \<Longrightarrow> split_chunks number chunk_size = None"
  using split_neg_aux [of number chunk_size "[]"]
  by (cases "split_chunks number chunk_size") (auto simp: split_chunks_def)

lemma split_chunks_nonneg:
  "0 \<le> number \<Longrightarrow> 1 \<le> chunk_size \<Longrightarrow>
   \<exists>ds. split_chunks number chunk_size = Some (Inr ds)
      \<and> (\<forall>c\<in>set ds. 0 \<le> c \<and> c < 2 ^ nat chunk_size)
      \<and> foldr (\<lambda>c n. c + 2 ^ nat chunk_size * n) ds 0 = number"
  using split_loop_nonneg [of number chunk_size "[]"] by (simp add: split_chunks_def)


text \<open>
  C10. For every \<open>chunk_size \<ge> 1\<close>, \<open>split_chunks\<close> returns if and only if the number is
  not negative: on \<open>number \<ge> 0\<close> it returns a list of chunks, each in
  \<open>[0, 2 ^ chunk_size - 1]\<close>, and on \<open>number < 0\<close> the loop never ends.
\<close>

theorem split_chunks_terminates_iff:
  assumes "1 \<le> chunk_size"
  shows "((\<exists>r. split_chunks number chunk_size = Some r) \<longleftrightarrow> 0 \<le> number)
     \<and> (0 \<le> number \<longrightarrow>
          (\<exists>chunks. split_chunks number chunk_size = Some (Inr chunks)
             \<and> (\<forall>c\<in>set chunks. 0 \<le> c \<and> c \<le> 2 ^ nat chunk_size - 1)))
     \<and> (number < 0 \<longrightarrow> split_chunks number chunk_size = None)"
proof (cases "0 \<le> number")
  case True
  from split_chunks_nonneg [OF this assms] obtain ds where
    "split_chunks number chunk_size = Some (Inr ds)"
    "\<forall>c\<in>set ds. 0 \<le> c \<and> c < 2 ^ nat chunk_size"
    by blast
  with True show ?thesis
    by fastforce
next
  case False
  with split_chunks_neg [of number chunk_size] assms show ?thesis
    by simp
qed

theorem split_chunks_terminates_iff_witness:
  "(1::int) \<le> 4 \<and> split_chunks 1000 4 = Some (Inr [8, 14, 3]) \<and> split_chunks (- 1000) 4 = None"
proof -
  have "split_chunks 1000 4 = Some (Inr [8, 14, 3])"
    by (simp add: split_chunks_def split_chunks_loop.simps drop_bit_eq_div
        take_bit_eq_mask [symmetric] mask_eq_exp_minus_1 [symmetric] take_bit_eq_mod)
  with split_chunks_terminates_iff [of 4 "- 1000"] show ?thesis
    by simp
qed

text \<open>
  C5, as amended. For every \<open>M \<ge> 0\<close> and \<open>chunk_size \<ge> 1\<close>, splitting \<open>M\<close> and
  recombining the chunks returns \<open>M\<close>.
\<close>

theorem round_trip_nonneg:
  assumes "0 \<le> M" "1 \<le> chunk_size"
  shows "round_trip M chunk_size = Some (Inr M)"
proof -
  from split_chunks_nonneg [OF assms] obtain ds where
    ds: "split_chunks M chunk_size = Some (Inr ds)"
    "\<forall>c\<in>set ds. 0 \<le> c \<and> c < 2 ^ nat chunk_size"
    "foldr (\<lambda>c n. c + 2 ^ nat chunk_size * n) ds 0 = M"
    by blast
  with combine_loop_value [of chunk_size ds 0] assms show ?thesis
    by (simp add: round_trip_def combine_chunks_def)
qed

theorem round_trip_nonneg_witness:
  "(0::int) \<le> 1000 \<and> (1::int) \<le> 4 \<and> round_trip 1000 4 = Some (Inr 1000)"
  using round_trip_nonneg [of 1000 4] by simp

text \<open>
  The claim as stated, for any integer \<open>M\<close>, fails at \<open>M = -1\<close>: \<open>split_chunks\<close> does not
  return, so the round trip has no value at all.
\<close>

theorem round_trip_negative_counterexample: "round_trip (- 1) 30 = None"
  using split_chunks_neg [of "- 1" 30] by (simp add: round_trip_def)

section \<open>The candidate loop and the batch search\<close>

lemma is_prime_loop_no_divisor:
  "\<forall>d. 1 < d \<and> d < n \<longrightarrow> \<not> d dvd n \<Longrightarrow> 5 \<le> i \<Longrightarrow> is_prime_loop n i"
proof (induction n i rule: is_prime_loop.induct)
  case (1 n i)
  note nodiv = 1(2) and i5 = 1(3)
  show ?case
  proof (cases "i * i \<le> n")
    case False
    then show ?thesis
      by (subst is_prime_loop.simps) simp
  next
    case True
    have "5 * i \<le> i * i"
      using i5 by (intro mult_right_mono) simp_all
    with True i5 have lt: "i < n" "i + 2 < n"
      by linarith+
    have nd: "\<not> i dvd n" "\<not> (i + 2) dvd n"
      using nodiv [THEN spec, of i] nodiv [THEN spec, of "i + 2"] lt i5 by auto
    then have nz: "n mod i \<noteq> 0" "n mod (i + 2) \<noteq> 0"
      by (simp_all add: dvd_eq_mod_eq_0)
    with True nodiv i5 have "is_prime_loop n (i + 6)"
      by (intro 1(1)) simp_all
    with nz True show ?thesis
      by (subst is_prime_loop.simps) simp
  qed
qed

lemma is_prime_no_divisor:
  assumes "1 < n" "\<forall>d. 1 < d \<and> d < n \<longrightarrow> \<not> d dvd n"
  shows "is_prime n"
proof -
  have "n mod 2 \<noteq> 0 \<and> n mod 3 \<noteq> 0" if "3 < n"
    using assms(2) that by (simp add: dvd_eq_mod_eq_0 [symmetric])
  with assms is_prime_loop_no_divisor [OF assms(2), of 5] show ?thesis
    by (auto simp: is_prime_def)
qed

lemma is_prime_unbounded: "\<exists>r. n < r \<and> is_prime r"
proof -
  define m where "m = nat n"
  define N where "N = fact m + (1::nat)"
  define r where "r = (LEAST d. 1 < d \<and> d dvd N)"
  have N1: "1 < N"
    by (simp add: N_def)
  then have "1 < N \<and> N dvd N"
    by simp
  then have r: "1 < r \<and> r dvd N"
    unfolding r_def by (rule LeastI)
  have least: "r \<le> d" if "1 < d" "d dvd N" for d
    unfolding r_def using that by (intro Least_le) simp
  have "m < r"
  proof (rule ccontr)
    assume "\<not> m < r"
    with r have "r dvd fact m"
      by (intro dvd_fact) simp_all
    moreover have "r dvd N"
      using r by simp
    ultimately have "r dvd N - fact m"
      by (rule dvd_diff_nat [rotated])
    then have "r dvd 1"
      by (simp add: N_def)
    with r show False
      by simp
  qed
  then have "n < int r"
    by (simp add: m_def)
  moreover have "is_prime (int r)"
  proof (rule is_prime_no_divisor)
    show "1 < int r"
      using r by simp
    show "\<forall>d. 1 < d \<and> d < int r \<longrightarrow> \<not> d dvd int r"
    proof (intro allI impI notI)
      fix d :: int
      assume d: "1 < d \<and> d < int r" and "d dvd int r"
      then have "nat d dvd r"
        by (metis nat_dvd_iff less_imp_le order_less_trans zero_less_one)
      with r have "nat d dvd N"
        by (blast intro: dvd_trans)
      with d least [of "nat d"] show False
        by linarith
    qed
  qed
  ultimately show ?thesis
    by blast
qed


lemma is_prime_odd: "is_prime r \<Longrightarrow> 2 < r \<Longrightarrow> odd r"
  by (auto simp: is_prime_def split: if_splits)

lemma is_prime_ge2: "is_prime r \<Longrightarrow> 2 \<le> r"
  by (auto simp: is_prime_def split: if_splits)

lemma candidate_unbounded: "\<exists>c. n \<le> c \<and> candidate known c"
proof -
  obtain r where r: "max (max n 2) (Max (set (0 # known))) < r" "is_prime r"
    using is_prime_unbounded by blast
  then have "r \<notin> set known"
    using Max_ge [of "set (0 # known)" r] by auto
  with r is_prime_odd [of r] show ?thesis
    by (intro exI [of _ r]) (simp add: candidate_def)
qed


lemma skip_known_spec:
  assumes "odd p"
  shows "\<exists>c. skip_known known p = Some c \<and> p \<le> c \<and> candidate known c
           \<and> (\<forall>r. p \<le> r \<and> r < c \<longrightarrow> \<not> candidate known r)"
proof -
  obtain t where t: "p \<le> t" "candidate known t"
    using candidate_unbounded by blast
  from assms t show ?thesis
  proof (induction "nat (t - p)" arbitrary: p rule: less_induct)
    case less
    show ?case
    proof (cases "candidate known p")
      case True
      with less.prems(1) have "skip_known known p = Some p"
        by (subst skip_known.simps) (simp add: candidate_def)
      with True show ?thesis
        by auto
    next
      case False
      with less.prems have "p \<noteq> t"
        by auto
      moreover have "odd t"
        using less.prems by (simp add: candidate_def)
      ultimately have "p + 2 \<le> t"
        using less.prems(1,2) by presburger
      then have "nat (t - (p + 2)) < nat (t - p)"
        by simp
      from less.hyps [OF this _ \<open>p + 2 \<le> t\<close> less.prems(3)] less.prems(1)
      obtain c where c: "skip_known known (p + 2) = Some c" "p + 2 \<le> c" "candidate known c"
        "\<forall>r. p + 2 \<le> r \<and> r < c \<longrightarrow> \<not> candidate known r"
        by auto
      have "skip_known known p = skip_known known (p + 2)"
        using False less.prems(1) by (subst skip_known.simps) (simp add: candidate_def)
      moreover have "\<not> candidate known r" if "p \<le> r" "r < c" for r
      proof (cases "r = p \<or> r = p + 1")
        case True
        with False less.prems(1) show ?thesis
          by (auto simp: candidate_def)
      next
        case False
        with that c(4) show ?thesis
          by simp
      qed
      ultimately show ?thesis
        using c by (intro exI [of _ c]) simp
    qed
  qed
qed


lemma gen_batch_spec:
  assumes "odd p"
  shows "\<exists>new p'. gen_batch known k p acc = Some (acc @ new, p') \<and> length new = k \<and> odd p'
           \<and> p \<le> p' \<and> (0 < k \<longrightarrow> p < p') \<and> sorted_wrt (<) new
           \<and> (\<forall>c. c \<in> set new \<longleftrightarrow> p \<le> c \<and> c < p' \<and> candidate known c)"
  using assms
proof (induction k arbitrary: p acc)
  case 0
  show ?case
    using 0 by (intro exI [of _ "[]"] exI [of _ p]) auto
next
  case (Suc k)
  from skip_known_spec [OF Suc.prems, of known] obtain q where
    q: "skip_known known p = Some q" "p \<le> q" "candidate known q"
    "\<forall>r. p \<le> r \<and> r < q \<longrightarrow> \<not> candidate known r"
    by blast
  then have oddq: "odd (q + 2)"
    by (simp add: candidate_def)
  from Suc.IH [OF this, of "acc @ [q]"] obtain new p' where
    new: "gen_batch known k (q + 2) (acc @ [q]) = Some ((acc @ [q]) @ new, p')"
    "length new = k" "odd p'" "q + 2 \<le> p'" "sorted_wrt (<) new"
    "\<forall>c. c \<in> set new \<longleftrightarrow> q + 2 \<le> c \<and> c < p' \<and> candidate known c"
    by blast
  have mem: "c \<in> set (q # new) \<longleftrightarrow> p \<le> c \<and> c < p' \<and> candidate known c" for c
  proof (cases "c \<le> q")
    case True
    with q new(4,6) show ?thesis
      by (cases "c = q") (auto simp: not_less [symmetric])
  next
    case False
    show ?thesis
    proof (cases "candidate known c")
      case cand: True
      with q(3) have "odd c" "odd q"
        by (simp_all add: candidate_def)
      with False have "q + 2 \<le> c"
        by presburger
      with cand False q(2) new(6) show ?thesis
        by auto
    next
      case False
      with q(3) new(6) show ?thesis
        by auto
    qed
  qed
  have "sorted_wrt (<) (q # new)"
    using new(5,6) by auto
  with q new mem show ?case
    by (intro exI [of _ "q # new"] exI [of _ p']) auto
qed

lemma lucas_lehmer_test_total: "0 \<le> c \<Longrightarrow> \<exists>b. lucas_lehmer_test c = Inr b"
  by (auto simp: lucas_lehmer_test_def Let_def)

lemma map_tasks_candidates:
  "\<forall>c\<in>set cs. 0 \<le> c \<Longrightarrow>
   map_tasks lucas_lehmer_test_multiprocessing cs
     = Inr (map (\<lambda>c. (c, lucas_lehmer_test c = Inr True)) cs)"
proof (induction cs)
  case Nil
  show ?case by simp
next
  case (Cons c cs)
  then have "0 \<le> c"
    by simp
  then obtain b where b: "lucas_lehmer_test c = Inr b"
    using lucas_lehmer_test_total by blast
  then have "lucas_lehmer_test_multiprocessing c = Inr (c, lucas_lehmer_test c = Inr True)"
    by (simp add: lucas_lehmer_test_multiprocessing_def)
  with Cons show ?case
    by simp
qed

lemma check_results_find:
  "check_results (map (\<lambda>c. (c, P c)) cs) = map_option (\<lambda>c. (push_bit (nat c) 1 - 1, c)) (find P cs)"
  by (induction cs) simp_all

lemma find_least:
  "sorted_wrt (<) xs \<Longrightarrow> h \<in> set xs \<Longrightarrow> P h \<Longrightarrow> \<forall>c\<in>set xs. P c \<longrightarrow> h \<le> c
     \<Longrightarrow> find P xs = Some (h::int)"
proof (induction xs)
  case Nil
  then show ?case by simp
next
  case (Cons x xs)
  show ?case
  proof (cases "P x")
    case True
    with Cons.prems have "h = x"
      by fastforce
    with True show ?thesis
      by simp
  next
    case False
    with Cons show ?thesis
      by auto
  qed
qed


lemma candidate_nonneg: "candidate known c \<Longrightarrow> 0 \<le> c"
  using is_prime_ge2 [of c] by (simp add: candidate_def)

lemma search_loop_step:
  assumes "gen_batch known (nat b) p [] = Some (new, p')" "\<forall>c\<in>set new. 0 \<le> c" "1 \<le> n"
  shows "search_loop known n b p =
     (case find (\<lambda>c. lucas_lehmer_test c = Inr True) new of
        None \<Rightarrow> search_loop known n b p'
      | Some c \<Rightarrow> Some (Inr (push_bit (nat c) 1 - 1, c)))"
  using assms
  by (subst search_loop.simps)
    (simp add: pool_map_def map_tasks_candidates check_results_find split: option.splits)

lemma search_loop_found:
  assumes "odd p" "1 \<le> n" "1 \<le> b" "hit known p h" "\<forall>c. hit known p c \<longrightarrow> h \<le> c"
  shows "search_loop known n b p = Some (Inr (2 ^ nat h - 1, h))"
  using assms
proof (induction "nat (h - p)" arbitrary: p rule: less_induct)
  case less
  from gen_batch_spec [OF less.prems(1), of known "nat b" "[]"] less.prems(3)
  obtain new p' where new: "gen_batch known (nat b) p [] = Some (new, p')" "odd p'" "p < p'"
    "sorted_wrt (<) new" "\<forall>c. c \<in> set new \<longleftrightarrow> p \<le> c \<and> c < p' \<and> candidate known c"
    by auto
  have nonneg: "\<forall>c\<in>set new. 0 \<le> c"
    using new(5) candidate_nonneg by blast
  note step = search_loop_step [OF new(1) nonneg less.prems(2)]
  show ?case
  proof (cases "h < p'")
    case True
    with less.prems(4) new(5) have "h \<in> set new"
      by (simp add: hit_def)
    moreover have "\<forall>c\<in>set new. lucas_lehmer_test c = Inr True \<longrightarrow> h \<le> c"
      using less.prems(5) new(5) by (auto simp: hit_def)
    ultimately have "find (\<lambda>c. lucas_lehmer_test c = Inr True) new = Some h"
      using new(4) less.prems(4) by (intro find_least) (simp_all add: hit_def)
    with step show ?thesis
      by simp
  next
    case False
    have "\<not> lucas_lehmer_test c = Inr True" if "c \<in> set new" for c
    proof
      assume "lucas_lehmer_test c = Inr True"
      with that new(5) have "hit known p c" "c < p'"
        by (simp_all add: hit_def)
      with less.prems(5) False show False
        by fastforce
    qed
    then have "find (\<lambda>c. lucas_lehmer_test c = Inr True) new = None"
      by (simp add: find_None_iff)
    with step have "search_loop known n b p = search_loop known n b p'"
      by simp
    moreover have "nat (h - p') < nat (h - p)"
      using False new(3) by simp
    moreover have "hit known p' h"
      using False less.prems(4) by (simp add: hit_def)
    moreover have "\<forall>c. hit known p' c \<longrightarrow> h \<le> c"
      using less.prems(5) new(3) by (auto simp: hit_def)
    ultimately show ?thesis
      using less.hyps [of p'] new(2) less.prems(2,3) by simp
  qed
qed

lemma search_loop_returns_hit:
  assumes "search_loop known n b p = Some r"
  shows "odd p \<and> 1 \<le> n \<and> 1 \<le> b \<longrightarrow> (\<exists>c. hit known p c)"
proof (rule search_loop.raw_induct
    [where P = "\<lambda>known n b p r. odd p \<and> 1 \<le> n \<and> 1 \<le> b \<longrightarrow> (\<exists>c. hit known p c)", OF _ assms])
  fix f known n b p r
  assume IH: "\<And>known n b p r. f known n b p = Some r
                \<Longrightarrow> odd p \<and> 1 \<le> n \<and> 1 \<le> b \<longrightarrow> (\<exists>c. hit known p c)"
    and eq: "(case gen_batch known (nat b) p [] of None \<Rightarrow> None
      | Some (candidates, p') \<Rightarrow>
          case pool_map n lucas_lehmer_test_multiprocessing candidates of
            Inl e \<Rightarrow> Some (Inl e)
          | Inr results \<Rightarrow>
              (case check_results results of
                 None \<Rightarrow> f known n b p'
               | Some found \<Rightarrow> Some (Inr found))) = Some r"
  show "odd p \<and> 1 \<le> n \<and> 1 \<le> b \<longrightarrow> (\<exists>c. hit known p c)"
  proof
    assume a: "odd p \<and> 1 \<le> n \<and> 1 \<le> b"
    from gen_batch_spec [of p known "nat b" "[]"] a
    obtain new p' where new: "gen_batch known (nat b) p [] = Some (new, p')" "odd p'" "p < p'"
      "\<forall>c. c \<in> set new \<longleftrightarrow> p \<le> c \<and> c < p' \<and> candidate known c"
      by auto
    have nonneg: "\<forall>c\<in>set new. 0 \<le> c"
      using new(4) candidate_nonneg by blast
    show "\<exists>c. hit known p c"
    proof (cases "find (\<lambda>c. lucas_lehmer_test c = Inr True) new")
      case None
      with eq new(1) nonneg a have "f known n b p' = Some r"
        by (simp add: pool_map_def map_tasks_candidates check_results_find)
      from IH [OF this] a new(2) obtain c where "hit known p' c"
        by blast
      with new(3) have "hit known p c"
        by (simp add: hit_def)
      then show ?thesis ..
    next
      case (Some c)
      then have "c \<in> set new" "lucas_lehmer_test c = Inr True"
        by (auto simp: find_Some_iff)
      with new(4) have "hit known p c"
        by (simp add: hit_def)
      then show ?thesis ..
    qed
  qed
qed

lemma search_loop_none:
  assumes "odd p" "1 \<le> n" "1 \<le> b" "\<forall>c. \<not> hit known p c"
  shows "search_loop known n b p = None"
  using search_loop_returns_hit [of known n b p] assms
  by (cases "search_loop known n b p") auto

lemma least_hit:
  assumes "hit known p c"
  shows "\<exists>h. hit known p h \<and> (\<forall>c. hit known p c \<longrightarrow> h \<le> c)"
proof -
  define k where "k = (LEAST k. hit known p (p + int k))"
  have "hit known p (p + int (nat (c - p)))"
    using assms by (simp add: hit_def)
  then have k: "hit known p (p + int k)"
    unfolding k_def by (rule LeastI)
  have "p + int k \<le> c'" if "hit known p c'" for c'
  proof -
    have "hit known p (p + int (nat (c' - p)))"
      using that by (simp add: hit_def)
    then have "k \<le> nat (c' - p)"
      unfolding k_def by (rule Least_le)
    moreover have "p \<le> c'"
      using that by (simp add: hit_def)
    ultimately show ?thesis
      by linarith
  qed
  with k show ?thesis
    by blast
qed


lemma search_loop_independent:
  assumes "odd p" "1 \<le> n" "1 \<le> b" "1 \<le> n'" "1 \<le> b'"
  shows "search_loop known n b p = search_loop known n' b' p"
proof (cases "\<exists>c. hit known p c")
  case True
  then obtain h where "hit known p h" "\<forall>c. hit known p c \<longrightarrow> h \<le> c"
    using least_hit by blast
  with assms show ?thesis
    by (simp add: search_loop_found)
next
  case False
  with assms show ?thesis
    by (simp add: search_loop_none)
qed

lemma odd_first_candidate: "odd (if (start + 1) mod 2 = 0 then start + 1 + 1 else start + (1::int))"
  by presburger

text \<open>
  C7. For every start and every list of known exponents, the search with one process and
  the search with eight processes give the same outcome: the same pair, or neither
  returns.
\<close>

theorem parallelism_does_not_change_result:
  "find_next_mersenne_prime cpu_count start known_exponents (Some 1)
     = find_next_mersenne_prime cpu_count start known_exponents (Some 8)"
  using search_loop_independent [OF odd_first_candidate, of 1 2 8 16 known_exponents start]
  by (simp add: find_next_mersenne_prime_def Let_def)

theorem parallelism_does_not_change_result_witness:
  "find_next_mersenne_prime 4 2 [2] (Some 1) = Some (Inr (7, 3))
     \<and> find_next_mersenne_prime 4 2 [2] (Some 8) = Some (Inr (7, 3))"
proof -
  have "find_next_mersenne_prime 4 2 [2] (Some 1) = Some (Inr (7, 3))"
    by (simp add: find_next_mersenne_prime_def search_loop.simps [of _ _ _ 3]
        skip_known.simps [of _ 3] skip_known.simps [of _ 5] is_prime_def
        is_prime_loop.simps [of 5 5] pool_map_def lucas_lehmer_test_multiprocessing_def
        lucas_lehmer_test_def eval_nat_numeral)
  with parallelism_does_not_change_result [of 4 2 "[2]"] show ?thesis
    by simp
qed

text \<open>
  C6. When the candidate loop has produced a batch, \<open>find_next_mersenne_prime\<close> returns
  the smallest exponent of the batch whose Lucas-Lehmer verdict is true, with its
  Mersenne number; the results are scanned in the order of the batch, which
  \<open>pool.map\<close> keeps whatever the order in which the workers finish. When no candidate
  of the batch tests true, the search goes on with the next batch.
\<close>

theorem batch_returns_smallest_true_exponent:
  assumes "odd p" "1 \<le> num_processes"
    and "gen_batch known_exponents (nat batch_size) p [] = Some (candidates, p')"
  shows "search_loop known_exponents num_processes batch_size p =
     (if \<exists>c\<in>set candidates. lucas_lehmer_test c = Inr True
      then Some (Inr (2 ^ nat (Min (set (filter (\<lambda>c. lucas_lehmer_test c = Inr True) candidates))) - 1,
                      Min (set (filter (\<lambda>c. lucas_lehmer_test c = Inr True) candidates))))
      else search_loop known_exponents num_processes batch_size p')"
proof -
  let ?P = "\<lambda>c. lucas_lehmer_test c = Inr True"
  from gen_batch_spec [OF assms(1), of known_exponents "nat batch_size" "[]"] assms(3)
  have sorted: "sorted_wrt (<) candidates"
    and cand: "\<forall>c\<in>set candidates. candidate known_exponents c"
    by auto
  then have "\<forall>c\<in>set candidates. 0 \<le> c"
    using candidate_nonneg by blast
  note step = search_loop_step [OF assms(3) this assms(2)]
  show ?thesis
  proof (cases "\<exists>c\<in>set candidates. ?P c")
    case True
    define m where "m = Min (set (filter ?P candidates))"
    have ne: "set (filter ?P candidates) \<noteq> {}"
      using True by (auto simp: filter_empty_conv)
    have "m \<in> set (filter ?P candidates)"
      unfolding m_def using ne by (intro Min_in) simp_all
    moreover have "\<forall>c\<in>set candidates. ?P c \<longrightarrow> m \<le> c"
      unfolding m_def by (auto intro: Min_le)
    ultimately have "find ?P candidates = Some m"
      using sorted by (intro find_least) simp_all
    with step True show ?thesis
      by (simp add: m_def)
  next
    case False
    then have "find ?P candidates = None"
      by (simp add: find_None_iff)
    with step False show ?thesis
      by simp
  qed
qed

theorem batch_returns_smallest_true_exponent_witness:
  "odd (3::int) \<and> (1::int) \<le> 1 \<and> gen_batch [2] (nat 2) 3 [] = Some ([3, 5], 7)
     \<and> search_loop [2] 1 2 3 = Some (Inr (7, 3))"
proof -
  have batch: "gen_batch [2] (nat 2) 3 [] = Some ([3, 5], 7)"
    by (simp add: skip_known.simps [of _ 3] skip_known.simps [of _ 5] is_prime_def
        is_prime_loop.simps [of 5 5] eval_nat_numeral)
  have "lucas_lehmer_test 3 = Inr True" "lucas_lehmer_test 5 = Inr True"
    by (simp_all add: lucas_lehmer_test_def eval_nat_numeral)
  with batch batch_returns_smallest_true_exponent [of 3 1 "[2]" 2 "[3, 5]" 7] show ?thesis
    by simp
qed

section \<open>The chunked kernel\<close>

lemma fold_add_sum:
  "fold (\<lambda>i M. M + g i) [0..<n] (a :: 'a :: comm_monoid_add) = a + (\<Sum>i<n. g i)"
  by (induction n) (simp_all add: add.assoc)

lemma chunks_value_sum:
  "foldr (\<lambda>c n. c + 2 ^ cs * n) ds 0 = (\<Sum>i<length ds. (ds ! i) * 2 ^ (i * cs) :: int)"
proof (induction ds)
  case Nil
  show ?case by simp
next
  case (Cons d ds)
  have "(\<Sum>i<length (d # ds). (d # ds) ! i * 2 ^ (i * cs))
      = d + (\<Sum>i<length ds. ds ! i * 2 ^ (Suc i * cs))"
    by (simp add: sum.lessThan_Suc_shift del: sum.lessThan_Suc)
  also have "\<dots> = d + 2 ^ cs * (\<Sum>i<length ds. ds ! i * 2 ^ (i * cs))"
    by (simp add: sum_distrib_left power_add mult.assoc mult.left_commute)
  finally show ?case
    by (simp add: Cons)
qed

lemma kernel_reconstruct:
  "fold (\<lambda>i M. M + push_bit (i * cs) (map word_of_int ds ! i)) [0..<length ds] (0 :: int64)
     = word_of_int (foldr (\<lambda>c n. c + 2 ^ cs * n) ds 0)"
proof -
  have "(\<Sum>i<length ds. push_bit (i * cs) (map word_of_int ds ! i) :: int64)
      = (\<Sum>i<length ds. word_of_int ((ds ! i) * 2 ^ (i * cs)))"
    by (intro sum.cong refl) (simp add: push_bit_eq_mult)
  then show ?thesis
    by (simp add: fold_add_sum chunks_value_sum)
qed


lemma cuda_s_result_kernel:
  assumes "1 \<le> p"
  shows "cuda_s_result p =
     Some (case kernel_loop (nat (p - 2)) (word_of_int (2 ^ nat p - 1)) 4 of
             Inl e \<Rightarrow> Inl e
           | Inr s \<Rightarrow> Inr [s])"
proof -
  have "(0::int) \<le> 2 ^ nat p - 1"
    by simp
  from split_chunks_nonneg [OF this, of 30] obtain ds where
    ds: "split_chunks (2 ^ nat p - 1) 30 = Some (Inr ds)"
    "foldr (\<lambda>c n. c + 2 ^ nat 30 * n) ds 0 = 2 ^ nat p - 1"
    by auto
  have "ds \<noteq> []"
  proof
    assume "ds = []"
    with ds(2) have "(2::int) ^ nat p = 1"
      by simp
    moreover have "(2::int) ^ 1 \<le> 2 ^ nat p"
      using assms by (intro power_increasing) simp_all
    ultimately show False
      by simp
  qed
  then have "(length ds + 32 - 1) div 32 \<noteq> 0"
    by (cases ds) simp_all
  with ds assms kernel_reconstruct [of "nat 30" ds] show ?thesis
    by (simp add: cuda_s_result_def lucas_lehmer_kernel_chunked_def Let_def
        split: sum.splits)
qed

lemma sint_small:
  "- (2 ^ 63) \<le> x \<Longrightarrow> x < 2 ^ 63 \<Longrightarrow> sint (word_of_int x :: int64) = x"
  by (simp add: sint_sbintrunc' signed_take_bit_int_eq_self)

lemma word_of_int_small_eq_0:
  "0 \<le> x \<Longrightarrow> x < 2 ^ 64 \<Longrightarrow> (word_of_int x :: int64) = 0 \<longleftrightarrow> x = 0"
  using zdvd_not_zless [of x "2 ^ 64"] by (cases "x = 0") (auto simp: word_of_int_eq_0_iff)

lemma kernel_step_exact:
  assumes "0 < M" "M < 2 ^ 31" "0 \<le> s" "s < 2 ^ 31"
  shows "mod_int64 (word_of_int s * word_of_int s - 2) (word_of_int M)
           = Inr (word_of_int ((s * s - 2) mod M))"
    and "in_int64 (sint (word_of_int s :: int64) * sint (word_of_int s :: int64))"
proof -
  define x where "x = s * s"
  have "x \<le> (2 ^ 31 - 1) * (2 ^ 31 - 1)"
    unfolding x_def using assms by (intro mult_mono) simp_all
  moreover have "0 \<le> x"
    by (simp add: x_def)
  ultimately have "- (2 ^ 63) \<le> x - 2" "x - 2 < 2 ^ 63" "- (2 ^ 63) \<le> x" "x < 2 ^ 63"
    by simp_all
  then have prod: "- (2 ^ 63) \<le> s * s - 2" "s * s - 2 < 2 ^ 63"
    "- (2 ^ 63) \<le> s * s" "s * s < 2 ^ 63"
    by (simp_all only: x_def)
  have M: "sint (word_of_int M :: int64) = M" "(word_of_int M :: int64) \<noteq> 0"
    using assms by (simp_all add: sint_small word_of_int_small_eq_0)
  have "word_of_int s * word_of_int s - 2 = (word_of_int (s * s - 2) :: int64)"
    by simp
  with prod M show "mod_int64 (word_of_int s * word_of_int s - 2) (word_of_int M)
      = Inr (word_of_int ((s * s - 2) mod M))"
    by (simp only: mod_int64_def sint_small if_False)
  have "sint (word_of_int s :: int64) = s"
    using assms by (intro sint_small) simp_all
  with prod show "in_int64 (sint (word_of_int s :: int64) * sint (word_of_int s :: int64))"
    by (simp add: in_int64_def)
qed

lemma kernel_no_overflow:
  assumes "0 < M" "M < 2 ^ 31"
  shows "0 \<le> s \<Longrightarrow> s < 2 ^ 31 \<Longrightarrow> \<not> kernel_overflows k (word_of_int M) (word_of_int s)"
proof (induction k arbitrary: s)
  case 0
  show ?case by simp
next
  case (Suc k)
  have "0 \<le> (s * s - 2) mod M" "(s * s - 2) mod M < 2 ^ 31"
    using assms by (simp, smt (verit) pos_mod_bound)
  from Suc.IH [OF this] kernel_step_exact [OF assms Suc.prems] show ?case
    by simp
qed

lemma kernel_loop_total: "M \<noteq> 0 \<Longrightarrow> \<exists>s'. kernel_loop k M s = Inr s'"
  by (induction k arbitrary: s) (simp_all add: mod_int64_def)

lemma mersenne_word_nonzero:
  assumes "1 \<le> p"
  shows "(word_of_int (2 ^ nat p - 1) :: int64) \<noteq> 0"
proof
  assume "(word_of_int (2 ^ nat p - 1) :: int64) = 0"
  then have "(2::int) ^ LENGTH(64) dvd 2 ^ nat p - 1"
    by (simp only: word_of_int_eq_0_iff)
  moreover have "(2::int) dvd 2 ^ LENGTH(64)"
    by simp
  ultimately have "even ((2::int) ^ nat p - 1)"
    by (rule dvd_trans [rotated])
  with assms show False
    by simp
qed

lemma kernel_loop_sim:
  assumes "0 < M" "M < 2 ^ 63"
  shows "kernel_loop (Suc k) (word_of_int M) (word_of_int s)
     = kernel_loop k (word_of_int M) (word_of_int (signed_take_bit 63 (s * s - 2) mod M))"
proof -
  have M: "sint (word_of_int M :: int64) = M" "(word_of_int M :: int64) \<noteq> 0"
    using assms by (simp_all add: sint_small word_of_int_small_eq_0)
  have "word_of_int s * word_of_int s - 2 = (word_of_int (s * s - 2) :: int64)"
    by simp
  with M have "mod_int64 (word_of_int s * word_of_int s - 2) (word_of_int M)
      = Inr (word_of_int (signed_take_bit 63 (s * s - 2) mod M))"
    by (simp only: mod_int64_def sint_sbintrunc' if_False) simp
  then show ?thesis
    by simp
qed

lemma kernel_loop_minus_one: "kernel_loop (Suc k) (- 1) s = Inr 0"
proof -
  have "kernel_loop k (- 1) 0 = Inr 0" for k
    by (induction k) (simp_all add: mod_int64_def)
  then show ?thesis
    by (simp add: mod_int64_def)
qed


lemma kernel_loop_exact:
  assumes "0 < M" "M < 2 ^ 31"
  shows "0 \<le> s \<Longrightarrow> s < 2 ^ 31 \<Longrightarrow>
     kernel_loop k (word_of_int M) (word_of_int s) = Inr (word_of_int (ll_loop k M s))"
proof (induction k arbitrary: s)
  case 0
  show ?case by simp
next
  case (Suc k)
  have "0 \<le> (s * s - 2) mod M" "(s * s - 2) mod M < 2 ^ 31"
    using assms by (simp, smt (verit) pos_mod_bound)
  from Suc.IH [OF this] kernel_step_exact(1) [OF assms Suc.prems] show ?case
    by simp
qed

lemma ll_loop_range: "0 < M \<Longrightarrow> 0 \<le> ll_loop (Suc k) M s \<and> ll_loop (Suc k) M s < M"
  by (simp only: ll_loop_Suc_end) simp

lemma cuda_exact_residue:
  assumes "3 \<le> p" "p \<le> 31"
  shows "cuda_s_result p = Some (Inr [word_of_int (ll_loop (nat (p - 2)) (2 ^ nat p - 1) 4)])"
proof -
  have "(2::int) ^ nat p \<le> 2 ^ 31"
    using assms by (intro power_increasing) simp_all
  moreover have "(2::int) ^ 3 \<le> 2 ^ nat p"
    using assms by (intro power_increasing) simp_all
  ultimately have M: "(0::int) < 2 ^ nat p - 1" "(2::int) ^ nat p - 1 < 2 ^ 31"
    by simp_all
  from kernel_loop_exact [OF M, of 4 "nat (p - 2)"] assms show ?thesis
    by (simp add: cuda_s_result_kernel)
qed

lemma cuda_exact:
  assumes "2 \<le> p" "p \<le> 31"
  shows "lucas_lehmer_test_cuda p = Some (lucas_lehmer_test p)"
proof (cases "p = 2")
  case True
  then show ?thesis
    by (simp add: lucas_lehmer_test_cuda_def lucas_lehmer_test_def)
next
  case False
  with assms have p: "3 \<le> p"
    by simp
  define r where "r = ll_loop (nat (p - 2)) (2 ^ nat p - 1) 4"
  have "(2::int) ^ nat p \<le> 2 ^ 31"
    using assms by (intro power_increasing) simp_all
  moreover have "(2::int) ^ 3 \<le> 2 ^ nat p"
    using p by (intro power_increasing) simp_all
  ultimately have M: "(0::int) < 2 ^ nat p - 1" "(2::int) ^ nat p - 1 < 2 ^ 31"
    by simp_all
  obtain k where k: "nat (p - 2) = Suc k"
    using p by (cases "nat (p - 2)") simp_all
  from ll_loop_range [OF M(1), of k 4] M(2) have "0 \<le> r" "r < 2 ^ 64"
    by (simp_all add: r_def k)
  then have "(word_of_int r :: int64) = 0 \<longleftrightarrow> r = 0"
    by (rule word_of_int_small_eq_0)
  with cuda_exact_residue [OF p assms(2)] False p show ?thesis
    by (simp add: lucas_lehmer_test_cuda_def lucas_lehmer_test_def r_def)
qed


lemma ll_loop_7: "ll_loop 5 127 4 = 0"
proof -
  have step: "ll_loop (numeral n) 127 s = ll_loop (pred_numeral n) 127 (mersenne_step 7 127 s)"
    for n s
    by (rule ll_loop_mersenne) simp_all
  show ?thesis
    by (simp only: step mersenne_eval cong: if_weak_cong)
qed

lemma ll_test_7: "lucas_lehmer_test 7 = Inr True"
  by (simp add: lucas_lehmer_test_def ll_loop_7)

lemma ll_test_25: "lucas_lehmer_test 25 = Inr False"
  by (rule lucas_lehmer_test_composite [of _ 31 1082401]) simp_all

lemma ll_test_29: "lucas_lehmer_test 29 = Inr False"
  by (rule lucas_lehmer_test_composite [of _ 233 2304167]) simp_all

lemma ll_test_67: "lucas_lehmer_test 67 = Inr False"
  by (rule lucas_lehmer_test_composite [of _ 193707721 761838257287]) simp_all

lemma ll_loop_31: "ll_loop 29 2147483647 4 = 0"
proof -
  have step: "ll_loop (numeral n) 2147483647 s
      = ll_loop (pred_numeral n) 2147483647 (mersenne_step 31 2147483647 s)" for n s
    by (rule ll_loop_mersenne) simp_all
  show ?thesis
    by (simp only: step mersenne_eval cong: if_weak_cong)
qed

lemma ll_test_31: "lucas_lehmer_test 31 = Inr True"
  by (simp add: lucas_lehmer_test_def ll_loop_31)

lemma ll_loop_61: "ll_loop 59 2305843009213693951 4 = 0"
proof -
  have step: "ll_loop (numeral n) 2305843009213693951 s
      = ll_loop (pred_numeral n) 2305843009213693951 (mersenne_step 61 2305843009213693951 s)" for n s
    by (rule ll_loop_mersenne) simp_all
  show ?thesis
    by (simp only: step mersenne_eval cong: if_weak_cong)
qed

lemma ll_test_61: "lucas_lehmer_test 61 = Inr True"
  by (simp add: lucas_lehmer_test_def ll_loop_61)

lemma cuda_test_67: "lucas_lehmer_test_cuda 67 = Some (Inr True)"
proof -
  have "(word_of_int (2 ^ nat 67 - 1) :: int64) = - 1"
    by simp
  moreover have "nat (67 - 2) = Suc 64"
    by simp
  ultimately show ?thesis
    by (simp only: lucas_lehmer_test_cuda_def cuda_s_result_kernel kernel_loop_minus_one) simp
qed


lemma kernel_overflows_sim:
  assumes "0 < M" "M < 2 ^ 63"
  shows "kernel_overflows (Suc k) (word_of_int M) (word_of_int s)
     = (if in_int64 (signed_take_bit 63 s * signed_take_bit 63 s)
        then kernel_overflows k (word_of_int M)
               (word_of_int (signed_take_bit 63 (s * s - 2) mod M))
        else True)"
proof -
  have M: "sint (word_of_int M :: int64) = M" "(word_of_int M :: int64) \<noteq> 0"
    using assms by (simp_all add: sint_small word_of_int_small_eq_0)
  have "word_of_int s * word_of_int s - 2 = (word_of_int (s * s - 2) :: int64)"
    by simp
  with M have "mod_int64 (word_of_int s * word_of_int s - 2) (word_of_int M)
      = Inr (word_of_int (signed_take_bit 63 (s * s - 2) mod M))"
    by (simp only: mod_int64_def sint_sbintrunc' if_False) simp
  then show ?thesis
    by (simp add: sint_sbintrunc')
qed


lemma kernel_loop_int:
  assumes "0 < M" "M < 2 ^ 63"
  shows "kernel_loop k (word_of_int M) (word_of_int s) = Inr (word_of_int (kernel_loop_int k M s))"
  by (induction k arbitrary: s) (simp_all only: kernel_loop.simps(1) kernel_loop_int.simps
      kernel_loop_sim [OF assms])

lemma kernel_overflows_int:
  assumes "0 < M" "M < 2 ^ 63"
  shows "kernel_overflows k (word_of_int M) (word_of_int s) = kernel_overflows_int k M s"
  by (induction k arbitrary: s) (simp_all only: kernel_overflows.simps(1) kernel_overflows_int.simps
      kernel_overflows_sim [OF assms])

lemma kernel_loop_int_numeral:
  "kernel_loop_int (numeral n) M s
     = kernel_loop_int (pred_numeral n) M (signed_take_bit 63 (s * s - 2) mod M)"
  by (simp add: numeral_eq_Suc)

lemma kernel_overflows_int_numeral:
  "kernel_overflows_int (numeral n) M s =
     (if in_int64 (signed_take_bit 63 s * signed_take_bit 63 s)
      then kernel_overflows_int (pred_numeral n) M (signed_take_bit 63 (s * s - 2) mod M)
      else True)"
  by (simp add: numeral_eq_Suc)

lemma kernel_loop_int_61: "kernel_loop_int 59 2305843009213693951 4 = 383868607467028480"
  by (simp add: kernel_loop_int_numeral)

lemma kernel_overflows_int_61: "kernel_overflows_int 59 2305843009213693951 4"
  by (simp add: kernel_overflows_int_numeral in_int64_def)

lemma cuda_test_61: "lucas_lehmer_test_cuda 61 = Some (Inr False)"
proof -
  have "kernel_loop (nat (61 - 2)) (word_of_int (2 ^ nat 61 - 1)) (word_of_int 4)
      = Inr (word_of_int 383868607467028480)"
    using kernel_loop_int [of 2305843009213693951 59 4] by (simp add: kernel_loop_int_61)
  then show ?thesis
    by (simp add: lucas_lehmer_test_cuda_def cuda_s_result_kernel)
qed

lemma cuda_overflows_61: "kernel_overflows (nat (61 - 2)) (word_of_int (2 ^ nat 61 - 1)) 4"
  using kernel_overflows_int [of 2305843009213693951 59 4] by (simp add: kernel_overflows_int_61)


text \<open>
  C3, as amended. For every exponent \<open>2 \<le> p \<le> 31\<close> the chunked path and the native path
  give the same verdict, and for \<open>p \<noteq> 2\<close> the residue the kernel leaves in
  \<open>s_array[0]\<close> is the native residue.
\<close>

theorem chunked_path_agrees_up_to_31:
  assumes "2 \<le> p" "p \<le> 31"
  shows "lucas_lehmer_test_cuda p = Some (lucas_lehmer_test p)
     \<and> (p \<noteq> 2 \<longrightarrow>
          (\<exists>s. cuda_s_result p = Some (Inr [s])
             \<and> sint s = ll_loop (nat (p - 2)) (2 ^ nat p - 1) 4))"
proof (cases "p = 2")
  case True
  with cuda_exact [OF assms] show ?thesis
    by simp
next
  case False
  with assms have p: "3 \<le> p"
    by simp
  define r where "r = ll_loop (nat (p - 2)) (2 ^ nat p - 1) 4"
  have "(2::int) ^ nat p \<le> 2 ^ 31"
    using assms by (intro power_increasing) simp_all
  moreover have "(2::int) ^ 3 \<le> 2 ^ nat p"
    using p by (intro power_increasing) simp_all
  ultimately have M: "(0::int) < 2 ^ nat p - 1" "(2::int) ^ nat p - 1 < 2 ^ 31"
    by simp_all
  obtain k where k: "nat (p - 2) = Suc k"
    using p by (cases "nat (p - 2)") simp_all
  from ll_loop_range [OF M(1), of k 4] M(2) have "- (2 ^ 63) \<le> r" "r < 2 ^ 63"
    by (simp_all add: r_def k)
  then have "sint (word_of_int r :: int64) = r"
    by (rule sint_small)
  with cuda_exact_residue [OF p assms(2)] cuda_exact [OF assms] show ?thesis
    by (simp add: r_def)
qed

theorem chunked_path_agrees_up_to_31_witness:
  "(2::int) \<le> 7 \<and> (7::int) \<le> 31 \<and> lucas_lehmer_test_cuda 7 = Some (Inr True)"
  using chunked_path_agrees_up_to_31 [of 7] by (simp add: ll_test_7)

text \<open>
  The claim as stated fails at \<open>p = 67\<close>, whose modulus does not fit a machine word:
  the modulus rebuilt by the kernel is \<open>-1\<close>, every residue is 0 and the verdict is
  true, while \<open>2\<^sup>6\<^sup>7 - 1 = 193707721 \<times> 761838257287\<close> and the native verdict is false.
\<close>

theorem chunked_path_differs_counterexample:
  "lucas_lehmer_test 67 = Inr False \<and> lucas_lehmer_test_cuda 67 = Some (Inr True)"
  by (simp add: ll_test_67 cuda_test_67)

text \<open>
  C8, as amended. The chunked path has no overflow check: for every \<open>p \<ge> 2\<close> it returns
  a verdict and never an error, computed in wrapping 64-bit arithmetic. No product
  overflows as long as \<open>p \<le> 31\<close>.
\<close>

theorem chunked_path_never_reports_overflow:
  assumes "2 \<le> p"
  shows "(\<exists>verdict. lucas_lehmer_test_cuda p = Some (Inr verdict))
     \<and> (p \<le> 31 \<longrightarrow> \<not> kernel_overflows (nat (p - 2)) (word_of_int (2 ^ nat p - 1)) 4)"
proof -
  have p1: "1 \<le> p"
    using assms by simp
  from kernel_loop_total [OF mersenne_word_nonzero [OF p1], of "nat (p - 2)" 4]
  have "\<exists>verdict. lucas_lehmer_test_cuda p = Some (Inr verdict)"
    by (auto simp: lucas_lehmer_test_cuda_def cuda_s_result_kernel [OF p1])
  moreover have "\<not> kernel_overflows (nat (p - 2)) (word_of_int (2 ^ nat p - 1)) 4" if "p \<le> 31"
  proof -
    have "(2::int) ^ nat p \<le> 2 ^ 31"
      using that by (intro power_increasing) simp_all
    moreover have "(2::int) ^ 2 \<le> 2 ^ nat p"
      using assms by (intro power_increasing) simp_all
    ultimately have M: "(0::int) < 2 ^ nat p - 1" "(2::int) ^ nat p - 1 < 2 ^ 31"
      by simp_all
    from kernel_no_overflow [OF M, of 4 "nat (p - 2)"] show ?thesis
      by simp
  qed
  ultimately show ?thesis
    by blast
qed

theorem chunked_path_never_reports_overflow_witness:
  "(2::int) \<le> 61 \<and> (\<exists>verdict. lucas_lehmer_test_cuda 61 = Some (Inr verdict))"
  using chunked_path_never_reports_overflow [of 61] by simp

text \<open>
  The claim as stated fails at \<open>p = 61\<close>: a product of the loop does not fit
  \<open>int64\<close>, no error is raised, and the verdict returned is false although the exact
  test accepts \<open>2\<^sup>6\<^sup>1 - 1\<close>.
\<close>

theorem silent_overflow_counterexample:
  "kernel_overflows (nat (61 - 2)) (word_of_int (2 ^ nat 61 - 1)) 4
     \<and> lucas_lehmer_test_cuda 61 = Some (Inr False)
     \<and> lucas_lehmer_test 61 = Inr True"
  using cuda_overflows_61 cuda_test_61 ll_test_61 by simp


section \<open>Candidate generation\<close>

lemma mod6_odd: "c mod 6 \<in> {1, 5} \<Longrightarrow> odd (c::int)"
proof -
  assume "c mod 6 \<in> {1, 5}"
  then have "c mod 6 = 1 \<or> c mod 6 = 5"
    by simp
  then show ?thesis
    by presburger
qed

lemma gpu_search_loop_trace:
  assumes "gpu_search_loop known p submitted = Some r"
  shows "\<exists>new. snd r = submitted @ new \<and> sorted_wrt (<) new
           \<and> (\<forall>c\<in>set new. p < c \<and> c \<notin> set known \<and> c mod 6 \<in> {1, 5})"
proof (rule gpu_search_loop.raw_induct [where P = "\<lambda>known p submitted r.
    \<exists>new. snd r = submitted @ new \<and> sorted_wrt (<) new
           \<and> (\<forall>c\<in>set new. p < c \<and> c \<notin> set known \<and> c mod 6 \<in> {1, 5})", OF _ assms])
  fix f known p submitted r
  assume IH: "\<And>known p submitted r. f known p submitted = Some r \<Longrightarrow>
      \<exists>new. snd r = submitted @ new \<and> sorted_wrt (<) new
           \<and> (\<forall>c\<in>set new. p < c \<and> c \<notin> set known \<and> c mod 6 \<in> {1, 5})"
    and step: "(let p = p + 1
      in if p \<in> set known then f known p submitted
         else if p mod 6 \<notin> {1, 5} then f known p submitted
         else (case lucas_lehmer_test_cuda p of
                 None \<Rightarrow> None
               | Some (Inl e) \<Rightarrow> Some (Inl e, submitted @ [p])
               | Some (Inr is_mersenne) \<Rightarrow>
                   if is_mersenne then Some (Inr (push_bit (nat p) 1 - 1, p), submitted @ [p])
                   else f known p (submitted @ [p]))) = Some r"
  let ?Q = "\<lambda>p new. sorted_wrt (<) new \<and> (\<forall>c\<in>set new. p < c \<and> c \<notin> set known \<and> c mod 6 \<in> {1, 5})"
  have weaken: "?Q p new" if "?Q (p + 1) new" for new
    using that by auto
  have cons: "?Q p ((p + 1) # new)" if "?Q (p + 1) new" "p + 1 \<notin> set known" "(p + 1) mod 6 \<in> {1, 5}" for new
    using that by auto
  have single: "?Q p [p + 1]" if "p + 1 \<notin> set known" "(p + 1) mod 6 \<in> {1, 5}"
    using that by auto
  consider (known) "p + 1 \<in> set known"
    | (mod6) "p + 1 \<notin> set known" "(p + 1) mod 6 \<notin> {1, 5}"
    | (test) "p + 1 \<notin> set known" "(p + 1) mod 6 \<in> {1, 5}"
    by blast
  then show "\<exists>new. snd r = submitted @ new \<and> ?Q p new"
  proof cases
    case known
    with step have "f known (p + 1) submitted = Some r"
      by (simp add: Let_def)
    from IH [OF this] weaken show ?thesis
      by blast
  next
    case mod6
    with step have "f known (p + 1) submitted = Some r"
      by (simp add: Let_def)
    from IH [OF this] weaken show ?thesis
      by blast
  next
    case test
    with step have body: "(case lucas_lehmer_test_cuda (p + 1) of
                 None \<Rightarrow> None
               | Some (Inl e) \<Rightarrow> Some (Inl e, submitted @ [p + 1])
               | Some (Inr is_mersenne) \<Rightarrow>
                   if is_mersenne
                   then Some (Inr (push_bit (nat (p + 1)) 1 - 1, p + 1), submitted @ [p + 1])
                   else f known (p + 1) (submitted @ [p + 1])) = Some r"
      by (simp only: Let_def if_False if_True simp_thms)
    show ?thesis
    proof (cases "lucas_lehmer_test_cuda (p + 1)")
      case None
      with body show ?thesis
        by simp
    next
      case (Some t)
      show ?thesis
      proof (cases t)
        case (Inl e)
        with body Some have "snd r = submitted @ [p + 1]"
          by auto
        with single [OF test] show ?thesis
          by blast
      next
        case (Inr v)
        show ?thesis
        proof (cases v)
          case True
          with body Some Inr have "snd r = submitted @ [p + 1]"
            by auto
          with single [OF test] show ?thesis
            by blast
        next
          case False
          with body Some Inr have "f known (p + 1) (submitted @ [p + 1]) = Some r"
            by simp
          from IH [OF this] obtain new where
            new: "snd r = (submitted @ [p + 1]) @ new" "?Q (p + 1) new"
            by blast
          from cons [OF new(2) test] new(1) show ?thesis
            by (intro exI [of _ "(p + 1) # new"]) simp
        qed
      qed
    qed
  qed
qed


lemma cuda_test_25: "lucas_lehmer_test_cuda 25 = Some (Inr False)"
  by (simp add: cuda_exact ll_test_25)

lemma cuda_test_29: "lucas_lehmer_test_cuda 29 = Some (Inr False)"
  by (simp add: cuda_exact ll_test_29)

lemma cuda_test_31: "lucas_lehmer_test_cuda 31 = Some (Inr True)"
  by (simp add: cuda_exact ll_test_31)

lemma gpu_search_24:
  "gpu_search_loop [] 24 [] = Some (Inr (2147483647, 31), [25, 29, 31])"
  by (simp add: gpu_search_loop.simps [of _ 24] gpu_search_loop.simps [of _ 25]
      gpu_search_loop.simps [of _ 26] gpu_search_loop.simps [of _ 27]
      gpu_search_loop.simps [of _ 28] gpu_search_loop.simps [of _ 29]
      gpu_search_loop.simps [of _ 30] cuda_test_25 cuda_test_29 cuda_test_31)

lemma not_is_prime_25: "\<not> is_prime 25"
  by (simp add: is_prime_def is_prime_loop.simps [of 25 5])

lemma gen_batch_3: "gen_batch [] 2 3 [] = Some ([3, 5], 7)"
  by (simp add: skip_known.simps [of _ 3] skip_known.simps [of _ 5] is_prime_def
      is_prime_loop.simps [of 5 5] eval_nat_numeral)

text \<open>
  C4, as amended. In both variants every exponent submitted to the Lucas-Lehmer test is
  odd and not among the known exponents, and the submitted exponents are strictly
  increasing. The candidate loop of MERSENNE.py always completes its batch, every
  member of which passes \<open>is_prime\<close>; the loop of Mersenne_GPU.py only requires
  \<open>p mod 6 \<in> {1, 5}\<close>.
\<close>

theorem candidate_generation_invariants:
  "(odd p \<longrightarrow>
      (\<exists>candidates p'. gen_batch known_exponents k p [] = Some (candidates, p')
         \<and> length candidates = k \<and> odd p' \<and> sorted_wrt (<) candidates
         \<and> (\<forall>c\<in>set candidates. odd c \<and> c \<notin> set known_exponents \<and> is_prime c
               \<and> p \<le> c \<and> c < p')))
   \<and> (gpu_search_loop known_exponents start [] = Some (res, submitted) \<longrightarrow>
        sorted_wrt (<) submitted
        \<and> (\<forall>c\<in>set submitted. odd c \<and> c \<notin> set known_exponents \<and> c mod 6 \<in> {1, 5}
              \<and> start < c))"
proof (intro conjI impI)
  assume "odd p"
  from gen_batch_spec [OF this, of known_exponents k "[]"] show
    "\<exists>candidates p'. gen_batch known_exponents k p [] = Some (candidates, p')
         \<and> length candidates = k \<and> odd p' \<and> sorted_wrt (<) candidates
         \<and> (\<forall>c\<in>set candidates. odd c \<and> c \<notin> set known_exponents \<and> is_prime c
               \<and> p \<le> c \<and> c < p')"
    by (auto simp: candidate_def)
next
  assume "gpu_search_loop known_exponents start [] = Some (res, submitted)"
  from gpu_search_loop_trace [OF this] have
    "sorted_wrt (<) submitted"
    "\<forall>c\<in>set submitted. start < c \<and> c \<notin> set known_exponents \<and> c mod 6 \<in> {1, 5}"
    by simp_all
  then show "sorted_wrt (<) submitted"
    and "\<forall>c\<in>set submitted. odd c \<and> c \<notin> set known_exponents \<and> c mod 6 \<in> {1, 5} \<and> start < c"
    using mod6_odd by blast+
qed

theorem candidate_generation_invariants_witness:
  "odd (3::int) \<and> gen_batch [] 2 3 [] = Some ([3, 5], 7)
     \<and> gpu_search_loop [] 24 [] = Some (Inr (2147483647, 31), [25, 29, 31])
     \<and> sorted_wrt (<) [25, 29, 31 :: int] \<and> odd (25 :: int) \<and> (25 :: int) mod 6 \<in> {1, 5}"
  using candidate_generation_invariants
    [of 3 "[]" 2 24 "Inr (2147483647, 31)" "[25, 29, 31]"] gen_batch_3 gpu_search_24
  by simp

text \<open>
  The claim as stated fails for Mersenne_GPU.py: searching from 24 with no known
  exponent, the loop submits 25, 29 and 31 to the test, and 25 is composite.
\<close>

theorem gpu_submits_composite_counterexample:
  "gpu_search_loop [] 24 [] = Some (Inr (2147483647, 31), [25, 29, 31]) \<and> \<not> is_prime 25"
  using gpu_search_24 not_is_prime_25 by simp

end
